theory Spec2Isabelle
  imports
    Main
    "HOL-Library.Multiset"
    "HOL-Library.Char_ord"
    "HOL-Library.List_Lexorder"
    "HOL-Library.Product_Lexorder"
    "HOL-Library.Option_ord"
begin

section \<open>Data model of \<^verbatim>\<open>task_b.py\<close>\<close>

text \<open>
  The script works on pandas data frames. A frame is modelled as the list of its rows, a
  column as the list of that column's values, and a missing value (\<^verbatim>\<open>NA\<close>, \<^verbatim>\<open>NaN\<close>,
  \<^verbatim>\<open>NaT\<close>) as \<open>None\<close>. A calendar date is the triple (year, month, day); the order on
  dates is the lexicographic order on triples.
\<close>

type_synonym date = "int \<times> int \<times> int"

definition year :: "date \<Rightarrow> int" where
  "year d = fst d"

definition month :: "date \<Rightarrow> int" where
  "month d = fst (snd d)"


definition is_leap_year :: "int \<Rightarrow> bool" where
  "is_leap_year y = (y mod 4 = 0 \<and> (y mod 100 \<noteq> 0 \<or> y mod 400 = 0))"

definition days_in_month :: "int \<Rightarrow> int \<Rightarrow> int" where
  "days_in_month y m =
     (if m = 2 then (if is_leap_year y then 29 else 28)
      else if m = 4 \<or> m = 6 \<or> m = 9 \<or> m = 11 then 30
      else 31)"

text \<open>\<^verbatim>\<open>ts + MonthEnd(0)\<close>: the date rolled forward to the last day of its month.\<close>

definition MonthEnd0 :: "date \<Rightarrow> date" where
  "MonthEnd0 d = (year d, month d, days_in_month (year d) (month d))"

text \<open>
  A text cell of a CSV file that the script converts to a typed value: the conversion
  (\<^verbatim>\<open>pd.to_datetime(..., format='%m/%d/%y')\<close> for dates, the \<^verbatim>\<open>Int64\<close> column type of
  \<^verbatim>\<open>read_csv\<close> for counts) either yields the value or fails. An empty cell is \<open>None\<close>.
\<close>

datatype 'a parsed = Unparseable | Parsed 'a

text \<open>Rows of \<^verbatim>\<open>patient_id_month_year.csv\<close>: \<^verbatim>\<open>patient_id\<close>, \<^verbatim>\<open>month_year\<close>.\<close>

type_synonym raw_enrollment = "string option \<times> date parsed option"
type_synonym enrollment = "string option \<times> date option"

text \<open>Rows of \<^verbatim>\<open>patient_enrollment_span.csv\<close>:
  \<^verbatim>\<open>patient_id\<close>, \<^verbatim>\<open>enrollment_start_date\<close>, \<^verbatim>\<open>enrollment_end_date\<close>.\<close>

type_synonym span = "string option \<times> date \<times> date"

text \<open>Rows of \<^verbatim>\<open>outpatient_visits_file.csv\<close>:
  \<^verbatim>\<open>patient_id\<close>, \<^verbatim>\<open>date\<close>, \<^verbatim>\<open>outpatient_visit_count\<close>.\<close>

type_synonym raw_visit = "string option \<times> date parsed option \<times> int parsed option"
type_synonym visit = "string option \<times> date option \<times> int option"

text \<open>Rows of the merged frame \<^verbatim>\<open>combined\<close>: the span columns, then \<^verbatim>\<open>date\<close> and
  \<^verbatim>\<open>outpatient_visit_count\<close>.\<close>

type_synonym combined = "string option \<times> date \<times> date \<times> date option \<times> int option"

text \<open>Rows of \<^verbatim>\<open>result.csv\<close>: the span columns, then \<^verbatim>\<open>ct_outpatient_visits\<close> and
  \<^verbatim>\<open>ct_days_with_outpatient_visit\<close>.\<close>

type_synonym summary = "string option \<times> date \<times> date \<times> int option \<times> nat option"

text \<open>What the script prints, in order.\<close>

datatype printed =
    Check bool
  | SpanRows nat
  | DistinctDayCounts nat

text \<open>The exceptions that end a run: the \<^verbatim>\<open>ValueError\<close> of \<^verbatim>\<open>to_datetime\<close> for a date that
  does not parse, and the exception with which \<^verbatim>\<open>read_csv\<close> rejects a count cell.\<close>

datatype error = ValueError_to_datetime | Error_read_csv


section \<open>Generic frame operations\<close>

text \<open>\<^verbatim>\<open>dropna(how='all')\<close> is written per frame below. \<^verbatim>\<open>drop_duplicates\<close> keeps the
  first occurrence of every row; with \<^verbatim>\<open>subset\<close>, rows are compared on a key.\<close>

primrec drop_duplicates_seen :: "('a \<Rightarrow> 'k) \<Rightarrow> 'k set \<Rightarrow> 'a list \<Rightarrow> 'a list" where
  "drop_duplicates_seen key seen [] = []"
| "drop_duplicates_seen key seen (x # xs) =
     (if key x \<in> seen then drop_duplicates_seen key seen xs
      else x # drop_duplicates_seen key (insert (key x) seen) xs)"

definition drop_duplicates_subset :: "('a \<Rightarrow> 'k) \<Rightarrow> 'a list \<Rightarrow> 'a list" where
  "drop_duplicates_subset key df = drop_duplicates_seen key {} df"

definition drop_duplicates :: "'a list \<Rightarrow> 'a list" where
  "drop_duplicates df = drop_duplicates_subset (\<lambda>r. r) df"

text \<open>\<^verbatim>\<open>to_datetime\<close> on a column: \<^verbatim>\<open>NA\<close> becomes \<^verbatim>\<open>NaT\<close>, and the first cell that does
  not parse raises (the default \<^verbatim>\<open>errors='raise'\<close>).\<close>

fun to_datetime :: "date parsed option list \<Rightarrow> error + date option list" where
  "to_datetime [] = Inr []"
| "to_datetime (None # cs) =
     (case to_datetime cs of Inl e \<Rightarrow> Inl e | Inr ds \<Rightarrow> Inr (None # ds))"
| "to_datetime (Some Unparseable # cs) = Inl ValueError_to_datetime"
| "to_datetime (Some (Parsed d) # cs) =
     (case to_datetime cs of Inl e \<Rightarrow> Inl e | Inr ds \<Rightarrow> Inr (Some d # ds))"

text \<open>Sorting puts missing values last (\<^verbatim>\<open>na_position='last'\<close>).\<close>

definition na_last :: "'a option \<Rightarrow> bool \<times> 'a option" where
  "na_last x = (x = None, x)"

text \<open>\<^verbatim>\<open>Series.diff()\<close>: each element minus the previous one; the first is \<^verbatim>\<open>NaN\<close>, and
  so is every difference with a \<^verbatim>\<open>NaN\<close> operand.\<close>

definition na_minus :: "int option \<Rightarrow> int option \<Rightarrow> int option" where
  "na_minus a b = (case (a, b) of (Some x, Some y) \<Rightarrow> Some (x - y) | _ \<Rightarrow> None)"

definition diff :: "int option list \<Rightarrow> int option list" where
  "diff xs = (case xs of [] \<Rightarrow> [] | _ # rest \<Rightarrow> None # map (\<lambda>(prev, cur). na_minus cur prev) (zip xs rest))"

text \<open>\<^verbatim>\<open>Series.cumsum()\<close> of a Boolean column: the running number of \<open>True\<close>s.\<close>

fun cumsum_from :: "nat \<Rightarrow> bool list \<Rightarrow> nat list" where
  "cumsum_from acc [] = []"
| "cumsum_from acc (b # bs) =
     (let acc' = acc + (if b then 1 else 0) in acc' # cumsum_from acc' bs)"

definition cumsum :: "bool list \<Rightarrow> nat list" where
  "cumsum bs = cumsum_from 0 bs"

text \<open>\<^verbatim>\<open>groupby('groups')[col].transform('min')\<close> and \<^verbatim>\<open>transform('max')\<close>: every row
  gets the least (greatest) non-missing value of its group, \<^verbatim>\<open>NaT\<close> when the group has
  none.\<close>

definition group_values :: "nat list \<Rightarrow> 'a option list \<Rightarrow> nat \<Rightarrow> 'a list" where
  "group_values gs col g = List.map_filter (\<lambda>(g', v). if g' = g then v else None) (zip gs col)"

definition transform_min :: "nat list \<Rightarrow> ('a::linorder) option list \<Rightarrow> 'a option list" where
  "transform_min gs col =
     map (\<lambda>g. let vs = group_values gs col g in if vs = [] then None else Some (Min (set vs))) gs"

definition transform_max :: "nat list \<Rightarrow> ('a::linorder) option list \<Rightarrow> 'a option list" where
  "transform_max gs col =
     map (\<lambda>g. let vs = group_values gs col g in if vs = [] then None else Some (Max (set vs))) gs"


section \<open>Step 1: data transformation (the enrollment spans)\<close>

text \<open>\<^verbatim>\<open>dropna(how='all')\<close>: a row is dropped when every one of its cells is missing.\<close>

definition dropna_enrollment :: "raw_enrollment list \<Rightarrow> raw_enrollment list" where
  "dropna_enrollment df = filter (\<lambda>(p, my). \<not> (p = None \<and> my = None)) df"

text \<open>\<^verbatim>\<open>sort_values(by=['patient_id', 'month_year'])\<close>.\<close>

definition sort_values :: "enrollment list \<Rightarrow> enrollment list" where
  "sort_values df = sort_key (\<lambda>(p, my). (na_last p, na_last my)) df"

definition month_col :: "enrollment list \<Rightarrow> int option list" where
  "month_col df = map (\<lambda>(p, my). map_option month my) df"

definition year_col :: "enrollment list \<Rightarrow> int option list" where
  "year_col df = map (\<lambda>(p, my). map_option year my) df"

text \<open>The printed check \<^verbatim>\<open>(pt_enrollment_span['year'] == 2023).all()\<close>.\<close>

definition year_check :: "enrollment list \<Rightarrow> bool" where
  "year_check df = list_all (\<lambda>y. y = Some 2023) (year_col df)"

text \<open>
  The column \<^verbatim>\<open>groups\<close>. The script assigns it twice; the first assignment (from
  \<^verbatim>\<open>in_block\<close> and \<^verbatim>\<open>filt\<close>) is overwritten by the second before it is read, so only
  the second is modelled: \<^verbatim>\<open>breaks = dt.diff() != 1\<close>, \<^verbatim>\<open>groups = breaks.cumsum()\<close>,
  taken over the whole sorted frame.
\<close>

definition breaks :: "enrollment list \<Rightarrow> bool list" where
  "breaks df = map (\<lambda>d. d \<noteq> Some 1) (diff (month_col df))"

definition groups :: "enrollment list \<Rightarrow> nat list" where
  "groups df = cumsum (breaks df)"

definition enrollment_start_date :: "enrollment list \<Rightarrow> date option list" where
  "enrollment_start_date df = transform_min (groups df) (map snd df)"

definition enrollment_end_date :: "enrollment list \<Rightarrow> date option list" where
  "enrollment_end_date df = transform_max (groups df) (map snd df)"

text \<open>
  The row selection
  \<^verbatim>\<open>(enrollment_start_date == month_year) | (enrollment_end_date == month_year)\<close>
  followed by dropping the columns \<^verbatim>\<open>month_year\<close>, \<^verbatim>\<open>groups\<close>, \<^verbatim>\<open>month\<close>, \<^verbatim>\<open>year\<close>.
  A comparison with \<^verbatim>\<open>NaT\<close> is false, so a selected row has a \<^verbatim>\<open>month_year\<close>, hence its
  group has a least and a greatest date.
\<close>

definition endpoint_row :: "enrollment \<times> date option \<times> date option \<Rightarrow> span list" where
  "endpoint_row r =
     (case r of ((p, my), st, en) \<Rightarrow>
       (case (my, st, en) of
          (Some d, Some s, Some e) \<Rightarrow> if s = d \<or> e = d then [(p, s, e)] else []
        | _ \<Rightarrow> []))"

definition select_endpoints :: "(enrollment \<times> date option \<times> date option) list \<Rightarrow> span list" where
  "select_endpoints df = concat (map endpoint_row df)"

text \<open>The sorted frame with its start and end columns, then the selection,
  \<^verbatim>\<open>drop_duplicates()\<close> and \<^verbatim>\<open>enrollment_end_date + MonthEnd(0)\<close>.\<close>

definition span_frame :: "enrollment list \<Rightarrow> (enrollment \<times> date option \<times> date option) list" where
  "span_frame df =
     (let sorted_df = sort_values df
      in zip sorted_df (zip (enrollment_start_date sorted_df) (enrollment_end_date sorted_df)))"

definition pt_enrollment_span :: "enrollment list \<Rightarrow> span list" where
  "pt_enrollment_span df =
     map (\<lambda>(p, s, e). (p, s, MonthEnd0 e)) (drop_duplicates (select_endpoints (span_frame df)))"

text \<open>Step 1 from the raw rows: what is printed and the rows of
  \<^verbatim>\<open>patient_enrollment_span.csv\<close>, or the exception of \<^verbatim>\<open>to_datetime\<close>.\<close>

definition step1 :: "raw_enrollment list \<Rightarrow> error + (printed list \<times> span list)" where
  "step1 raw =
     (let df = dropna_enrollment raw in
      case to_datetime (map snd df) of
        Inl e \<Rightarrow> Inl e
      | Inr dates \<Rightarrow>
          (let typed = zip (map fst df) dates;
               spans = pt_enrollment_span typed
           in Inr ([Check (year_check (sort_values typed)), SpanRows (length spans)], spans)))"


section \<open>Step 2: data aggregation (the visit counts per span)\<close>

text \<open>
  The column \<^verbatim>\<open>outpatient_visit_count\<close> has the type \<^verbatim>\<open>Int64\<close>: its values are the
  integers from \<open>- 2 ^ 63\<close> to \<open>2 ^ 63 - 1\<close>, and its arithmetic wraps around silently
  (\<open>2 ^ 62 + 2 ^ 62\<close> is \<open>- 2 ^ 63\<close>). \<open>int64 x\<close> is the 64-bit value of the integer \<open>x\<close>.
\<close>

definition in_int64 :: "int \<Rightarrow> bool" where
  "in_int64 x = (- (2 ^ 63) \<le> x \<and> x < 2 ^ 63)"

definition int64 :: "int \<Rightarrow> int" where
  "int64 x = (x + 2 ^ 63) mod 2 ^ 64 - 2 ^ 63"

text \<open>\<^verbatim>\<open>read_csv\<close> with \<^verbatim>\<open>outpatient_visit_count\<close> typed \<^verbatim>\<open>Int64\<close>: a cell that is not a
  number, or whose number is outside the range of \<^verbatim>\<open>Int64\<close>, raises; an empty cell is
  \<^verbatim>\<open>NA\<close>.\<close>

fun read_counts :: "int parsed option list \<Rightarrow> error + int option list" where
  "read_counts [] = Inr []"
| "read_counts (None # cs) =
     (case read_counts cs of Inl e \<Rightarrow> Inl e | Inr ns \<Rightarrow> Inr (None # ns))"
| "read_counts (Some Unparseable # cs) = Inl Error_read_csv"
| "read_counts (Some (Parsed n) # cs) =
     (if in_int64 n
      then (case read_counts cs of Inl e \<Rightarrow> Inl e | Inr ns \<Rightarrow> Inr (Some n # ns))
      else Inl Error_read_csv)"

definition dropna_visits :: "(string option \<times> date parsed option \<times> int option) list
    \<Rightarrow> (string option \<times> date parsed option \<times> int option) list" where
  "dropna_visits df = filter (\<lambda>(p, d, c). \<not> (p = None \<and> d = None \<and> c = None)) df"

text \<open>The printed check \<^verbatim>\<open>(outpatient_visit_count >= 1).all()\<close>; missing counts are
  skipped.\<close>

definition counts_check :: "int option list \<Rightarrow> bool" where
  "counts_check cs = list_all (\<lambda>c. case c of None \<Rightarrow> True | Some n \<Rightarrow> n \<ge> 1) cs"

text \<open>\<^verbatim>\<open>pd.merge(pt_enrollment_span, outpt_enrollment_span)\<close>: the inner join on the one
  common column, \<^verbatim>\<open>patient_id\<close>; missing keys match each other.\<close>

definition pd_merge :: "span list \<Rightarrow> visit list \<Rightarrow> combined list" where
  "pd_merge spans visits =
     concat (map (\<lambda>(p, s, e).
       map (\<lambda>(p', d, c). (p, s, e, d, c)) (filter (\<lambda>(p', d, c). p' = p) visits)) spans)"

definition in_enrollment :: "combined \<Rightarrow> bool" where
  "in_enrollment r =
     (case r of (p, s, e, d, c) \<Rightarrow> (case d of None \<Rightarrow> False | Some d' \<Rightarrow> s \<le> d' \<and> e \<ge> d'))"

text \<open>The grouping key \<^verbatim>\<open>['patient_id', 'enrollment_start_date', 'enrollment_end_date']\<close>.\<close>

definition span_key :: "combined \<Rightarrow> span" where
  "span_key r = (case r of (p, s, e, d, c) \<Rightarrow> (p, s, e))"

text \<open>The key \<^verbatim>\<open>['patient_id', 'enrollment_start_date', 'enrollment_end_date', 'date']\<close>
  of the de-duplication.\<close>

definition day_key :: "combined \<Rightarrow> span \<times> date option" where
  "day_key r = (case r of (p, s, e, d, c) \<Rightarrow> ((p, s, e), d))"

definition visit_count :: "combined \<Rightarrow> int option" where
  "visit_count r = (case r of (p, s, e, d, c) \<Rightarrow> c)"

text \<open>
  \<^verbatim>\<open>groupby(by=[...])['outpatient_visit_count'].transform('sum')\<close> and
  \<^verbatim>\<open>transform('count')\<close>: the sum skips missing counts and is a sum of \<^verbatim>\<open>Int64\<close> values,
  so it wraps around; the count counts the present ones; a row whose key has a missing
  \<^verbatim>\<open>patient_id\<close> belongs to no group and gets \<^verbatim>\<open>NA\<close> (\<^verbatim>\<open>groupby\<close> drops missing keys).
\<close>

definition transform_sum :: "combined list \<Rightarrow> combined \<Rightarrow> int option" where
  "transform_sum df r =
     (if fst r = None then None
      else Some (int64 (sum_list (map (\<lambda>r'. case visit_count r' of None \<Rightarrow> 0 | Some n \<Rightarrow> n)
                  (filter (\<lambda>r'. span_key r' = span_key r) df)))))"

definition transform_count :: "combined list \<Rightarrow> combined \<Rightarrow> nat option" where
  "transform_count df r =
     (if fst r = None then None
      else Some (length (filter (\<lambda>r'. span_key r' = span_key r \<and> visit_count r' \<noteq> None) df)))"

text \<open>The frame \<^verbatim>\<open>combined\<close> after the merge and the selection of the rows whose
  \<^verbatim>\<open>date\<close> lies in \<^verbatim>\<open>[enrollment_start_date, enrollment_end_date]\<close>.\<close>

definition combined_in_enrollment :: "span list \<Rightarrow> visit list \<Rightarrow> combined list" where
  "combined_in_enrollment spans visits = filter in_enrollment (pd_merge spans visits)"

text \<open>
  The two count columns and the final frame: \<^verbatim>\<open>ct_outpatient_visits\<close> is computed on
  the selected rows, then the rows are de-duplicated on the day key (only if
  \<^verbatim>\<open>exists_duplicates\<close>), \<^verbatim>\<open>ct_days_with_outpatient_visit\<close> is computed on what is left,
  the columns \<^verbatim>\<open>date\<close> and \<^verbatim>\<open>outpatient_visit_count\<close> are dropped and the rows are
  de-duplicated.
\<close>

definition exists_duplicates :: "combined list \<Rightarrow> bool" where
  "exists_duplicates df = (\<not> distinct (map day_key df))"

definition aggregate :: "combined list \<Rightarrow> summary list" where
  "aggregate kept =
     (let with_ct = map (\<lambda>r. (r, transform_sum kept r)) kept;
          dedup = (if exists_duplicates kept
                   then drop_duplicates_subset (\<lambda>(r, ct). day_key r) with_ct
                   else with_ct);
          with_days = map (\<lambda>(r, ct). (span_key r, ct, transform_count (map fst dedup) r)) dedup
      in drop_duplicates (map (\<lambda>((p, s, e), ct, days). (p, s, e, ct, days)) with_days))"

definition result :: "span list \<Rightarrow> visit list \<Rightarrow> summary list" where
  "result spans visits = aggregate (combined_in_enrollment spans visits)"

text \<open>The printed check that every merged row lies in its span, and the printed number
  of distinct values of \<^verbatim>\<open>ct_days_with_outpatient_visit\<close>.\<close>

definition all_in_enrollment :: "span list \<Rightarrow> visit list \<Rightarrow> bool" where
  "all_in_enrollment spans visits = list_all in_enrollment (pd_merge spans visits)"

definition nunique_days :: "summary list \<Rightarrow> nat" where
  "nunique_days df = length (remdups (List.map_filter (\<lambda>(p, s, e, ct, days). days) df))"

text \<open>
  Step 2 from the raw rows. \<^verbatim>\<open>read_csv\<close> may raise before anything is printed;
  \<^verbatim>\<open>to_datetime\<close> may raise after the check of the counts has been printed. The value
  is what Step 2 has printed, and the exception that ended it or the rows of
  \<^verbatim>\<open>result.csv\<close>.
\<close>

definition step2 :: "span list \<Rightarrow> raw_visit list \<Rightarrow> printed list \<times> (error + summary list)" where
  "step2 spans raw =
     (case read_counts (map (\<lambda>(p, d, c). c) raw) of
        Inl e \<Rightarrow> ([], Inl e)
      | Inr counts \<Rightarrow>
          (let df = dropna_visits (map (\<lambda>((p, d, c), n). (p, d, n)) (zip raw counts));
               out = [Check (counts_check (map (\<lambda>(p, d, n). n) df))] in
           case to_datetime (map (\<lambda>(p, d, n). d) df) of
             Inl e \<Rightarrow> (out, Inl e)
           | Inr dates \<Rightarrow>
               (let visits = map (\<lambda>((p, d, n), d'). (p, d', n)) (zip df dates);
                    res = result spans visits
                in (out @ [Check (all_in_enrollment spans visits),
                           DistinctDayCounts (nunique_days res)], Inr res))))"

text \<open>
  The whole script: Step 1, then Step 2 on Step 1's spans. A run is what the script has
  printed, the rows of \<^verbatim>\<open>patient_enrollment_span.csv\<close> if the file has been written, and
  the exception that ended the run or the rows of \<^verbatim>\<open>result.csv\<close>. An exception of Step 1
  comes before any line is printed and any file written; an exception of Step 2 comes
  after Step 1 has printed its lines and written its file.
\<close>

type_synonym run = "printed list \<times> span list option \<times> (error + summary list)"

definition task_b :: "raw_enrollment list \<Rightarrow> raw_visit list \<Rightarrow> run" where
  "task_b raw_enrollments raw_visits =
     (case step1 raw_enrollments of
        Inl e \<Rightarrow> ([], None, Inl e)
      | Inr (out1, spans) \<Rightarrow>
          (case step2 spans raw_visits of
             (out2, r) \<Rightarrow> (out1 @ out2, Some spans, r)))"

section \<open>Notions used to state the properties\<close>

text \<open>Two spans overlap when their closed date intervals share a day.\<close>

definition overlap :: "span \<Rightarrow> span \<Rightarrow> bool" where
  "overlap a b = (case a of (p, s, e) \<Rightarrow> case b of (p', s', e') \<Rightarrow> s \<le> e' \<and> s' \<le> e)"

definition non_overlapping :: "span list \<Rightarrow> bool" where
  "non_overlapping spans =
     (\<forall>a \<in> set spans. \<forall>b \<in> set spans. a \<noteq> b \<and> fst a = fst b \<longrightarrow> \<not> overlap a b)"

text \<open>The typed value of a text cell that converts; the typed rows of the two input
  files; a visit row with every cell missing.\<close>

definition typed_cell :: "'a parsed option \<Rightarrow> 'a option" where
  "typed_cell c = (case c of Some (Parsed v) \<Rightarrow> Some v | _ \<Rightarrow> None)"

definition typed_enrollment :: "raw_enrollment \<Rightarrow> enrollment" where
  "typed_enrollment r = (case r of (p, my) \<Rightarrow> (p, typed_cell my))"

definition typed_visit :: "raw_visit \<Rightarrow> visit" where
  "typed_visit r = (case r of (p, d, c) \<Rightarrow> (p, typed_cell d, typed_cell c))"

definition all_missing_visit :: "raw_visit \<Rightarrow> bool" where
  "all_missing_visit r = (case r of (p, d, c) \<Rightarrow> p = None \<and> d = None \<and> c = None)"

text \<open>A count cell that \<^verbatim>\<open>read_csv\<close> cannot read as an \<^verbatim>\<open>Int64\<close>: text that is not a
  number, or a number outside the 64-bit range.\<close>

definition unreadable_count :: "int parsed option \<Rightarrow> bool" where
  "unreadable_count c =
     (case c of None \<Rightarrow> False | Some Unparseable \<Rightarrow> True | Some (Parsed n) \<Rightarrow> \<not> in_int64 n)"

text \<open>A visit row lies in a span when it is of the span's patient and its date lies in
  the closed interval from the span's start to its end; the visit rows in a span, the
  count of a row (nothing for a missing count), and the distinct dates visited in a
  span.\<close>

definition in_span :: "span \<Rightarrow> visit \<Rightarrow> bool" where
  "in_span sp v =
     (case sp of (p, s, e) \<Rightarrow> case v of (p', d, c) \<Rightarrow>
        p' = p \<and> (case d of None \<Rightarrow> False | Some d' \<Rightarrow> s \<le> d' \<and> d' \<le> e))"

definition count_or_zero :: "visit \<Rightarrow> int" where
  "count_or_zero v = (case v of (p, d, c) \<Rightarrow> (case c of None \<Rightarrow> 0 | Some n \<Rightarrow> n))"

definition visits_in_span :: "span \<Rightarrow> visit list \<Rightarrow> visit list" where
  "visits_in_span sp visits = filter (in_span sp) visits"

definition days_with_visit :: "span \<Rightarrow> visit list \<Rightarrow> date option set" where
  "days_with_visit sp visits = set (map (\<lambda>(p, d, c). d) (visits_in_span sp visits))"

text \<open>The dates of the rows that share the group of row \<open>i\<close> of a frame.\<close>

definition group_dates :: "enrollment list \<Rightarrow> nat \<Rightarrow> date set" where
  "group_dates df i = set (group_values (groups df) (map snd df) (groups df ! i))"

text \<open>Every record carries a date of the year \<open>y\<close>; no patient has two records in the
  same month.\<close>

definition single_year :: "int \<Rightarrow> enrollment list \<Rightarrow> bool" where
  "single_year y df = (\<forall>r \<in> set df. map_option year (snd r) = Some y)"

definition one_row_per_month :: "enrollment list \<Rightarrow> bool" where
  "one_row_per_month df = distinct (map (\<lambda>r. (fst r, map_option month (snd r))) df)"


section \<open>The conversions and the order of the run\<close>

text \<open>A conversion fails exactly when some cell does not parse; otherwise it yields the
  typed column. Hence each step, and the whole run, is an error or the computation on the
  typed rows.\<close>

lemma to_datetime_eq:
  "to_datetime cs = (if Some Unparseable \<in> set cs then Inl ValueError_to_datetime else Inr (map typed_cell cs))"
  by (induction cs rule: to_datetime.induct) (auto simp: typed_cell_def)

lemma read_counts_eq:
  "read_counts cs = (if \<exists>c \<in> set cs. unreadable_count c then Inl Error_read_csv
                     else Inr (map typed_cell cs))"
  by (induction cs rule: read_counts.induct) (auto simp: typed_cell_def unreadable_count_def)

text \<open>The counts that \<^verbatim>\<open>read_csv\<close> yields lie in the range of \<^verbatim>\<open>Int64\<close>; \<open>int64\<close> maps
  every integer into that range, changes it by a multiple of \<open>2 ^ 64\<close>, and leaves the
  integers of the range as they are.\<close>

lemma read_counts_in_int64:
  "read_counts cs = Inr ns \<Longrightarrow> Some n \<in> set ns \<Longrightarrow> in_int64 n"
  by (induction cs arbitrary: ns rule: read_counts.induct)
    (auto split: sum.splits if_splits)

lemma in_int64_int64: "in_int64 (int64 x)"
proof -
  have "0 \<le> (x + 2 ^ 63) mod 2 ^ 64" "(x + 2 ^ 63) mod 2 ^ 64 < (2 ^ 64 :: int)"
    by simp_all
  then show ?thesis by (simp add: in_int64_def int64_def)
qed

lemma int64_mod: "int64 x mod 2 ^ 64 = x mod 2 ^ 64"
proof -
  have "int64 x = (x + 2 ^ 63) mod 2 ^ 64 + - (2 ^ 63)"
    by (simp add: int64_def)
  also have "\<dots> mod 2 ^ 64 = (x + 2 ^ 63 + - (2 ^ 63)) mod 2 ^ 64"
    by (rule mod_add_left_eq)
  finally show ?thesis by simp
qed

lemma int64_id: "in_int64 x \<Longrightarrow> int64 x = x"
  by (simp add: in_int64_def int64_def)

lemma unparseable_dropna_enrollment:
  "Some Unparseable \<in> snd ` set (dropna_enrollment raw) \<longleftrightarrow> Some Unparseable \<in> snd ` set raw"
  by (force simp: dropna_enrollment_def)

lemma step1_eq:
  "step1 raw =
     (if Some Unparseable \<in> snd ` set raw then Inl ValueError_to_datetime
      else (let typed = map typed_enrollment (dropna_enrollment raw);
                spans = pt_enrollment_span typed
            in Inr ([Check (year_check (sort_values typed)), SpanRows (length spans)], spans)))"
proof -
  have z: "zip (map fst df) (map typed_cell (map snd df)) = map typed_enrollment df" for df :: "raw_enrollment list"
    by (induction df) (auto simp: typed_enrollment_def)
  have u: "Some Unparseable \<in> set (map snd (dropna_enrollment raw)) \<longleftrightarrow> Some Unparseable \<in> snd ` set raw"
    using unparseable_dropna_enrollment[of raw] by simp
  show ?thesis
  proof (cases "Some Unparseable \<in> snd ` set raw")
    case True
    then have "to_datetime (map snd (dropna_enrollment raw)) = Inl ValueError_to_datetime"
      using u by (simp only: to_datetime_eq if_True)
    then show ?thesis using True by (simp only: step1_def Let_def sum.case if_True)
  next
    case False
    then have "to_datetime (map snd (dropna_enrollment raw)) = Inr (map typed_cell (map snd (dropna_enrollment raw)))"
      using u by (simp only: to_datetime_eq if_False)
    then show ?thesis using False by (simp only: step1_def Let_def sum.case if_False z)
  qed
qed

lemma step2_eq:
  "step2 spans raw =
     (if \<exists>r \<in> set raw. unreadable_count (snd (snd r)) then ([], Inl Error_read_csv)
      else (let visits = map typed_visit (filter (\<lambda>r. \<not> all_missing_visit r) raw);
                out = [Check (counts_check (map (\<lambda>(p, d, n). n) visits))]
            in if Some Unparseable \<in> (\<lambda>(p, d, c). d) ` set raw then (out, Inl ValueError_to_datetime)
               else (let res = result spans visits
                     in (out @ [Check (all_in_enrollment spans visits),
                                DistinctDayCounts (nunique_days res)], Inr res))))"
proof (cases "\<exists>r \<in> set raw. unreadable_count (snd (snd r))")
  case True
  then have "\<exists>c \<in> set (map (\<lambda>(p, d, c). c) raw). unreadable_count c"
    by force
  then have "read_counts (map (\<lambda>(p, d, c). c) raw) = Inl Error_read_csv"
    by (simp only: read_counts_eq if_True)
  then show ?thesis using True by (simp only: step2_def sum.case if_True)
next
  case False
  define half where "half = (\<lambda>(p :: string option, d :: date parsed option, c :: int parsed option). (p, d, typed_cell c))"
  define df where "df = map half (filter (\<lambda>r. \<not> all_missing_visit r) raw)"
  have nu: "Some Unparseable \<notin> (\<lambda>(p, d, c). c) ` set raw"
    using False by (force simp: unreadable_count_def)
  have "\<not> (\<exists>c \<in> set (map (\<lambda>(p, d, c). c) raw). unreadable_count c)"
    using False by force
  then have rc: "read_counts (map (\<lambda>(p, d, c). c) raw) = Inr (map typed_cell (map (\<lambda>(p, d, c). c) raw))"
    by (simp only: read_counts_eq if_False)
  have z1: "map (\<lambda>((p, d, c), n). (p, d, n)) (zip rs (map typed_cell (map (\<lambda>(p, d, c). c) rs))) = map half rs"
    for rs :: "raw_visit list"
    by (induction rs) (auto simp: half_def)
  have z2: "dropna_visits (map half rs) = map half (filter (\<lambda>r. \<not> all_missing_visit r) rs)"
    if "Some Unparseable \<notin> (\<lambda>(p, d, c). c) ` set rs" for rs :: "raw_visit list"
    using that
    by (induction rs)
      (auto simp: half_def dropna_visits_def all_missing_visit_def typed_cell_def split: option.splits parsed.splits)
  have dfeq: "dropna_visits (map (\<lambda>((p, d, c), n). (p, d, n)) (zip raw (map typed_cell (map (\<lambda>(p, d, c). c) raw)))) = df"
    unfolding z1 z2[OF nu] df_def ..
  have z3: "Some Unparseable \<in> set (map (\<lambda>(p, d, n). d) df) \<longleftrightarrow> Some Unparseable \<in> (\<lambda>(p, d, c). d) ` set raw"
    unfolding df_def by (force simp: all_missing_visit_def half_def)
  have z4: "map (\<lambda>((p, d, n), d'). (p, d', n)) (zip df (map typed_cell (map (\<lambda>(p, d, n). d) df)))
      = map typed_visit (filter (\<lambda>r. \<not> all_missing_visit r) raw)"
    unfolding df_def by (induction raw) (auto simp: half_def typed_visit_def)
  have z6: "map (\<lambda>(p, d, n). n) df = map (\<lambda>(p, d, n). n) (map typed_visit (filter (\<lambda>r. \<not> all_missing_visit r) raw))"
    unfolding df_def by (induction raw) (auto simp: half_def typed_visit_def)
  show ?thesis
  proof (cases "Some Unparseable \<in> (\<lambda>(p, d, c). d) ` set raw")
    case True
    then have "to_datetime (map (\<lambda>(p, d, n). d) df) = Inl ValueError_to_datetime"
      using z3 by (simp only: to_datetime_eq if_True)
    then show ?thesis using True False
      by (simp only: step2_def rc sum.case Let_def dfeq if_True if_False z6)
  next
    case nd: False
    then have "to_datetime (map (\<lambda>(p, d, n). d) df) = Inr (map typed_cell (map (\<lambda>(p, d, n). d) df))"
      using z3 by (simp only: to_datetime_eq if_False)
    then show ?thesis using nd False
      by (simp only: step2_def rc sum.case Let_def dfeq if_False z4 z6)
  qed
qed

lemma task_b_eq:
  "task_b enr vis =
     (if Some Unparseable \<in> snd ` set enr then ([], None, Inl ValueError_to_datetime)
      else (let typed = map typed_enrollment (dropna_enrollment enr);
                spans = pt_enrollment_span typed;
                out1 = [Check (year_check (sort_values typed)), SpanRows (length spans)]
            in if \<exists>r \<in> set vis. unreadable_count (snd (snd r))
               then (out1, Some spans, Inl Error_read_csv)
               else (let visits = map typed_visit (filter (\<lambda>r. \<not> all_missing_visit r) vis);
                         out2 = out1 @ [Check (counts_check (map (\<lambda>(p, d, n). n) visits))]
                     in if Some Unparseable \<in> (\<lambda>(p, d, c). d) ` set vis
                        then (out2, Some spans, Inl ValueError_to_datetime)
                        else (let res = result spans visits
                              in (out2 @ [Check (all_in_enrollment spans visits),
                                          DistinctDayCounts (nunique_days res)],
                                  Some spans, Inr res)))))"
  unfolding task_b_def step1_eq step2_eq by (simp add: Let_def)


section \<open>Rows of the sorted frame, by position\<close>

text \<open>The columns have the length of the frame; the running sum grows by one exactly at
  a break, and a row other than the first is a break exactly when its month is not the
  previous row's month plus one.\<close>

lemma length_cumsum_from: "length (cumsum_from a bs) = length bs"
  by (induction bs arbitrary: a) (auto simp: Let_def)

lemma cumsum_from_hd: "bs \<noteq> [] \<Longrightarrow> cumsum_from a bs ! 0 = a + (if bs ! 0 then 1 else 0)"
  by (cases bs) (auto simp: Let_def)

lemma cumsum_from_step:
  "Suc k < length bs \<Longrightarrow> cumsum_from a bs ! Suc k = cumsum_from a bs ! k + (if bs ! Suc k then 1 else 0)"
proof (induction bs arbitrary: a k)
  case Nil
  then show ?case by simp
next
  case (Cons b bs)
  show ?case
  proof (cases k)
    case 0
    with Cons.prems have "bs \<noteq> []" by auto
    then show ?thesis using 0 by (simp add: Let_def cumsum_from_hd)
  next
    case (Suc k')
    with Cons.prems have "Suc k' < length bs" by simp
    from Cons.IH[OF this] show ?thesis using Suc by (simp add: Let_def)
  qed
qed

lemma length_cumsum: "length (cumsum bs) = length bs"
  by (simp add: cumsum_def length_cumsum_from)

lemma cumsum_step:
  "Suc k < length bs \<Longrightarrow> cumsum bs ! Suc k = cumsum bs ! k + (if bs ! Suc k then 1 else 0)"
  by (simp add: cumsum_def cumsum_from_step)

lemma length_diff: "length (diff xs) = length xs"
  by (cases xs) (auto simp: diff_def)

lemma diff_nth_Suc: "Suc k < length xs \<Longrightarrow> diff xs ! Suc k = na_minus (xs ! Suc k) (xs ! k)"
  by (cases xs) (auto simp: diff_def)

lemma diff_nth_0: "xs \<noteq> [] \<Longrightarrow> diff xs ! 0 = None"
  by (cases xs) (auto simp: diff_def)

lemma length_breaks: "length (breaks df) = length df"
  by (simp add: breaks_def length_diff month_col_def)

lemma length_groups: "length (groups df) = length df"
  by (simp add: groups_def length_cumsum length_breaks)

lemma breaks_nth_Suc:
  "Suc k < length df \<Longrightarrow>
   breaks df ! Suc k = (na_minus (map_option month (snd (df ! Suc k))) (map_option month (snd (df ! k))) \<noteq> Some 1)"
  by (simp add: breaks_def length_diff month_col_def diff_nth_Suc case_prod_unfold)

lemma breaks_nth_0: "df \<noteq> [] \<Longrightarrow> breaks df ! 0"
  by (simp add: breaks_def length_diff month_col_def diff_nth_0)

lemma groups_step:
  "Suc k < length df \<Longrightarrow> groups df ! Suc k = groups df ! k + (if breaks df ! Suc k then 1 else 0)"
  by (simp add: groups_def cumsum_step length_breaks)

lemma length_transform_min: "length (transform_min gs col) = length gs"
  by (simp add: transform_min_def)

lemma length_transform_max: "length (transform_max gs col) = length gs"
  by (simp add: transform_max_def)

lemma length_sort_values: "length (sort_values df) = length df"
  by (simp add: sort_values_def)

lemma length_span_frame: "length (span_frame df) = length df"
  by (simp add: span_frame_def Let_def enrollment_start_date_def enrollment_end_date_def
      length_transform_min length_transform_max length_groups length_sort_values)

lemma span_frame_nth:
  "i < length df \<Longrightarrow>
   span_frame df ! i = (sort_values df ! i, enrollment_start_date (sort_values df) ! i,
                        enrollment_end_date (sort_values df) ! i)"
  by (simp add: span_frame_def Let_def enrollment_start_date_def enrollment_end_date_def
      length_transform_min length_transform_max length_groups length_sort_values)




section \<open>De-duplication\<close>

text \<open>\<^verbatim>\<open>drop_duplicates\<close> keeps rows of the frame, one for every key that occurs.\<close>

lemma set_drop_duplicates_seen_subset: "set (drop_duplicates_seen key seen xs) \<subseteq> set xs"
  by (induction xs arbitrary: seen) auto

lemma keys_drop_duplicates_seen:
  "key ` set (drop_duplicates_seen key seen xs) = key ` set xs - seen"
  by (induction xs arbitrary: seen) auto

lemma distinct_drop_duplicates_seen: "distinct (map key (drop_duplicates_seen key seen xs))"
proof (induction xs arbitrary: seen)
  case Nil
  then show ?case by simp
next
  case (Cons x xs)
  have "key x \<notin> key ` set (drop_duplicates_seen key (insert (key x) seen) xs)"
    by (simp add: keys_drop_duplicates_seen)
  then show ?case using Cons by auto
qed

lemma filter_drop_duplicates_seen_le:
  "length (filter P (drop_duplicates_seen key seen xs)) \<le> length (filter P xs)"
proof (induction xs arbitrary: seen)
  case Nil
  then show ?case by simp
next
  case (Cons x xs)
  show ?case
    using Cons[of seen] Cons[of "insert (key x) seen"] by auto
qed

lemma drop_duplicates_seen_distinct:
  "distinct (map key xs) \<Longrightarrow> key ` set xs \<inter> seen = {} \<Longrightarrow> drop_duplicates_seen key seen xs = xs"
proof (induction xs arbitrary: seen)
  case Nil
  then show ?case by simp
next
  case (Cons x xs)
  then have "key ` set xs \<inter> insert (key x) seen = {}" by auto
  with Cons show ?case by auto
qed

lemma drop_duplicates_seen_map:
  "drop_duplicates_seen (\<lambda>(r, c). key r) seen (map (\<lambda>r. (r, f r)) xs)
     = map (\<lambda>r. (r, f r)) (drop_duplicates_seen key seen xs)"
  by (induction xs arbitrary: seen) auto

lemma set_drop_duplicates: "set (drop_duplicates xs) = set xs"
  using keys_drop_duplicates_seen[of "\<lambda>r. r" "{}" xs]
  by (simp add: drop_duplicates_def drop_duplicates_subset_def)

lemma distinct_drop_duplicates: "distinct (drop_duplicates xs)"
  using distinct_drop_duplicates_seen[of "\<lambda>r. r" "{}" xs]
  by (simp add: drop_duplicates_def drop_duplicates_subset_def)

text \<open>The rows left by the de-duplication on the day key, whether or not the script's test
  \<^verbatim>\<open>exists_duplicates\<close> fires.\<close>

lemma aggregate_eq:
  "aggregate kept =
     drop_duplicates (map (\<lambda>r. case span_key r of (p, s, e) \<Rightarrow>
        (p, s, e, transform_sum kept r, transform_count (drop_duplicates_subset day_key kept) r))
        (drop_duplicates_subset day_key kept))"
proof -
  let ?with_ct = "map (\<lambda>r. (r, transform_sum kept r)) kept"
  let ?days = "drop_duplicates_subset day_key kept"
  have d: "(if exists_duplicates kept
            then drop_duplicates_subset (\<lambda>(r, ct). day_key r) ?with_ct else ?with_ct)
           = map (\<lambda>r. (r, transform_sum kept r)) ?days"
  proof (cases "exists_duplicates kept")
    case True
    then show ?thesis
      by (simp add: drop_duplicates_subset_def drop_duplicates_seen_map)
  next
    case False
    then have "distinct (map day_key kept)" by (simp add: exists_duplicates_def)
    then have "?days = kept"
      by (simp add: drop_duplicates_subset_def drop_duplicates_seen_distinct)
    then show ?thesis using False by simp
  qed
  have f: "map fst (map (\<lambda>r. (r, transform_sum kept r)) ?days) = ?days"
    by (simp add: o_def)
  show ?thesis
    unfolding aggregate_def Let_def d f
    by (simp add: o_def case_prod_unfold)
qed


section \<open>The merged frame and the rows of the result\<close>

lemma set_concat_map_filter:
  "set (concat (map (\<lambda>a. map (g a) (filter (P a) ys)) xs))
     = {z. \<exists>a \<in> set xs. \<exists>y \<in> set ys. P a y \<and> z = g a y}"
  by auto

lemma pd_merge_alt:
  "pd_merge spans visits =
     concat (map (\<lambda>sp. map (\<lambda>v. (fst sp, fst (snd sp), snd (snd sp), snd v))
                          (filter (\<lambda>v. fst v = fst sp) visits)) spans)"
  by (simp add: pd_merge_def case_prod_unfold)

lemma set_pd_merge_iff:
  "(p, s, e, d, c) \<in> set (pd_merge spans visits) \<longleftrightarrow> (p, s, e) \<in> set spans \<and> (p, d, c) \<in> set visits"
proof -
  have "(p, s, e, d, c) \<in> set (pd_merge spans visits) \<longleftrightarrow>
        (\<exists>sp \<in> set spans. \<exists>v \<in> set visits. fst v = fst sp \<and> (p, s, e, d, c) = (fst sp, fst (snd sp), snd (snd sp), snd v))"
    unfolding pd_merge_alt set_concat_map_filter by simp
  also have "\<dots> \<longleftrightarrow> (p, s, e) \<in> set spans \<and> (p, d, c) \<in> set visits"
  proof
    assume "\<exists>sp \<in> set spans. \<exists>v \<in> set visits. fst v = fst sp \<and> (p, s, e, d, c) = (fst sp, fst (snd sp), snd (snd sp), snd v)"
    then obtain sp v where "sp \<in> set spans" "v \<in> set visits" "fst v = fst sp"
      "(p, s, e, d, c) = (fst sp, fst (snd sp), snd (snd sp), snd v)" by blast
    then have "sp = (p, s, e)" "v = (p, d, c)" by (simp_all add: prod_eq_iff)
    then show "(p, s, e) \<in> set spans \<and> (p, d, c) \<in> set visits"
      using \<open>sp \<in> set spans\<close> \<open>v \<in> set visits\<close> by simp
  next
    assume a: "(p, s, e) \<in> set spans \<and> (p, d, c) \<in> set visits"
    show "\<exists>sp \<in> set spans. \<exists>v \<in> set visits. fst v = fst sp \<and> (p, s, e, d, c) = (fst sp, fst (snd sp), snd (snd sp), snd v)"
      by (rule bexI[of _ "(p, s, e)"], rule bexI[of _ "(p, d, c)"]) (use a in simp_all)
  qed
  finally show ?thesis .
qed

lemma set_combined_in_enrollment_iff:
  "(p, s, e, d, c) \<in> set (combined_in_enrollment spans visits) \<longleftrightarrow>
     (p, s, e) \<in> set spans \<and> (p, d, c) \<in> set visits \<and> in_span (p, s, e) (p, d, c)"
  by (simp add: combined_in_enrollment_def set_pd_merge_iff in_enrollment_def in_span_def
      split: option.splits)

lemma set_aggregate:
  "set (aggregate kept) =
     (\<lambda>r. case span_key r of (p, s, e) \<Rightarrow>
        (p, s, e, transform_sum kept r, transform_count (drop_duplicates_subset day_key kept) r))
     ` set (drop_duplicates_subset day_key kept)"
  by (simp add: aggregate_eq set_drop_duplicates)

lemma length_filter_le_sum_list:
  fixes f :: "'a \<Rightarrow> int"
  assumes "\<forall>x \<in> set xs. 0 \<le> f x"
  shows "int (length (filter (\<lambda>x. 1 \<le> f x) xs)) \<le> sum_list (map f xs)"
  using assms by (induction xs) auto

lemma transform_count_le_sum:
  assumes pos: "\<forall>r \<in> set kept. \<forall>n. visit_count r = Some n \<longrightarrow> 1 \<le> n"
    and nov: "sum_list (map (\<lambda>r'. case visit_count r' of None \<Rightarrow> 0 | Some n \<Rightarrow> n)
                (filter (\<lambda>r'. span_key r' = span_key r) kept)) < 2 ^ 63"
    and ct: "transform_sum kept r = Some a"
    and days: "transform_count (drop_duplicates_subset day_key kept) r = Some b"
  shows "int b \<le> a"
proof -
  let ?f = "\<lambda>r'. case visit_count r' of None \<Rightarrow> 0 | Some n \<Rightarrow> n"
  let ?grp = "filter (\<lambda>r'. span_key r' = span_key r) kept"
  have nonneg: "\<forall>x \<in> set ?grp. 0 \<le> ?f x"
    using pos by (auto split: option.splits)
  have "0 \<le> sum_list (map ?f ?grp)"
    by (rule sum_list_nonneg) (use nonneg in auto)
  then have "int64 (sum_list (map ?f ?grp)) = sum_list (map ?f ?grp)"
    using nov by (intro int64_id) (simp add: in_int64_def)
  then have a: "a = sum_list (map ?f ?grp)"
    using ct by (auto simp: transform_sum_def split: if_splits)
  have b: "b = length (filter (\<lambda>r'. span_key r' = span_key r \<and> visit_count r' \<noteq> None)
                  (drop_duplicates_subset day_key kept))"
    using days by (auto simp: transform_count_def split: if_splits)
  have "b \<le> length (filter (\<lambda>r'. span_key r' = span_key r \<and> visit_count r' \<noteq> None) kept)"
    unfolding b drop_duplicates_subset_def by (rule filter_drop_duplicates_seen_le)
  also have "\<dots> = length (filter (\<lambda>r'. 1 \<le> ?f r') ?grp)"
  proof -
    have "(span_key r' = span_key r \<and> visit_count r' \<noteq> None) \<longleftrightarrow> (span_key r' = span_key r \<and> 1 \<le> ?f r')"
      if "r' \<in> set kept" for r'
      using pos that by (auto split: option.splits)
    then have "filter (\<lambda>r'. span_key r' = span_key r \<and> visit_count r' \<noteq> None) kept
        = filter (\<lambda>r'. span_key r' = span_key r \<and> 1 \<le> ?f r') kept"
      by (intro filter_cong) auto
    then show ?thesis by (simp add: conj_commute)
  qed
  finally have "int b \<le> int (length (filter (\<lambda>r'. 1 \<le> ?f r') ?grp))" by simp
  also have "\<dots> \<le> sum_list (map ?f ?grp)"
    by (rule length_filter_le_sum_list) (rule nonneg)
  finally show ?thesis using a by simp
qed

lemma span_key_simp [simp]: "span_key (p, s, e, d, c) = (p, s, e)"
  by (simp add: span_key_def)

lemma day_key_simp [simp]: "day_key (p, s, e, d, c) = ((p, s, e), d)"
  by (simp add: day_key_def)

lemma visit_count_simp [simp]: "visit_count (p, s, e, d, c) = c"
  by (simp add: visit_count_def)

lemma fst_day_key: "fst (day_key r) = span_key r"
  by (cases r) auto

text \<open>The rows of one span in the selected frame.\<close>

lemma combined_in_enrollment_Cons:
  "combined_in_enrollment (sp # spans) visits =
     map (\<lambda>v. (fst sp, fst (snd sp), snd (snd sp), snd v)) (visits_in_span sp visits)
     @ combined_in_enrollment spans visits"
proof -
  have "filter in_enrollment (map (\<lambda>v. (fst sp, fst (snd sp), snd (snd sp), snd v)) (filter (\<lambda>v. fst v = fst sp) visits))
      = map (\<lambda>v. (fst sp, fst (snd sp), snd (snd sp), snd v)) (filter (in_span sp) visits)"
    by (induction visits)
      (auto simp: in_enrollment_def in_span_def case_prod_unfold split: option.splits)
  then show ?thesis
    by (simp add: combined_in_enrollment_def pd_merge_alt visits_in_span_def)
qed

lemma combined_in_enrollment_Nil: "combined_in_enrollment [] visits = []"
  by (simp add: combined_in_enrollment_def pd_merge_def)

lemma sum_group_combined:
  "sum_list (map (\<lambda>r. case visit_count r of None \<Rightarrow> 0 | Some n \<Rightarrow> n)
      (filter (\<lambda>r. span_key r = k) (combined_in_enrollment spans visits)))
   = int (count_list spans k) * sum_list (map count_or_zero (visits_in_span k visits))"
proof (induction spans)
  case Nil
  then show ?case by (simp add: combined_in_enrollment_Nil)
next
  case (Cons sp spans)
  let ?mk = "\<lambda>v :: visit. (fst sp, fst (snd sp), snd (snd sp), snd v)"
  have key: "span_key (?mk v) = sp" for v
    by (simp add: span_key_def)
  have cnt: "(case visit_count (?mk v) of None \<Rightarrow> 0 | Some n \<Rightarrow> n) = count_or_zero v" for v
    by (simp add: visit_count_def count_or_zero_def case_prod_unfold)
  have "sum_list (map (\<lambda>r. case visit_count r of None \<Rightarrow> 0 | Some n \<Rightarrow> n)
          (filter (\<lambda>r. span_key r = k) (map ?mk (visits_in_span sp visits))))
        = (if sp = k then sum_list (map count_or_zero (visits_in_span k visits)) else 0)"
    by (simp add: filter_map o_def key cnt)
  then show ?case
    using Cons by (simp add: combined_in_enrollment_Cons algebra_simps)
qed

lemma span_key_in_combined_iff:
  "k \<in> span_key ` set (combined_in_enrollment spans visits) \<longleftrightarrow>
     k \<in> set spans \<and> (\<exists>v \<in> set visits. in_span k v)"
proof (induction spans)
  case Nil
  then show ?case by (simp add: combined_in_enrollment_Nil)
next
  case (Cons sp spans)
  have "span_key ` set (map (\<lambda>v. (fst sp, fst (snd sp), snd (snd sp), snd v)) (visits_in_span sp visits))
      = (if visits_in_span sp visits = [] then {} else {sp})"
  proof (cases "visits_in_span sp visits")
    case Nil
    then show ?thesis by simp
  next
    case (Cons v vs)
    then show ?thesis by (auto simp: span_key_def image_image)
  qed
  moreover have "visits_in_span sp visits \<noteq> [] \<longleftrightarrow> (\<exists>v \<in> set visits. in_span sp v)"
    by (simp add: visits_in_span_def filter_empty_conv)
  ultimately show ?case
    using Cons by (auto simp: combined_in_enrollment_Cons image_Un)
qed

lemma day_key_in_combined_iff:
  "(k, d) \<in> day_key ` set (combined_in_enrollment spans visits) \<longleftrightarrow>
     k \<in> set spans \<and> d \<in> days_with_visit k visits"
proof (induction spans)
  case Nil
  then show ?case by (simp add: combined_in_enrollment_Nil)
next
  case (Cons sp spans)
  have "day_key ` set (map (\<lambda>v. (fst sp, fst (snd sp), snd (snd sp), snd v)) (visits_in_span sp visits))
      = (\<lambda>d. (sp, d)) ` days_with_visit sp visits"
    by (force simp: day_key_def days_with_visit_def image_iff case_prod_unfold)
  then show ?case
    using Cons by (auto simp: combined_in_enrollment_Cons image_Un)
qed

lemma fst_span_key: "fst (span_key r) = fst r"
  by (cases r) auto

lemma transform_sum_combined:
  assumes "span_key r = k"
  shows "transform_sum (combined_in_enrollment spans visits) r =
     (if fst k = None then None
      else Some (int64 (int (count_list spans k)
                        * sum_list (map count_or_zero (visits_in_span k visits)))))"
  using assms fst_span_key[of r] by (simp add: transform_sum_def sum_group_combined)

lemma transform_count_key:
  assumes "span_key r = k"
  shows "transform_count rows r =
     (if fst k = None then None
      else Some (length (filter (\<lambda>r'. span_key r' = k \<and> visit_count r' \<noteq> None) rows)))"
  using assms fst_span_key[of r] by (simp add: transform_count_def)

lemma day_rows_facts:
  "distinct (map day_key (drop_duplicates_subset day_key kept))"
  "day_key ` set (drop_duplicates_subset day_key kept) = day_key ` set kept"
  "set (drop_duplicates_subset day_key kept) \<subseteq> set kept"
  unfolding drop_duplicates_subset_def
  using keys_drop_duplicates_seen[of day_key "{}" kept]
  by (simp_all add: distinct_drop_duplicates_seen set_drop_duplicates_seen_subset)

lemma span_key_day_rows:
  "span_key ` set (drop_duplicates_subset day_key kept) = span_key ` set kept"
proof -
  have "span_key ` A = fst ` day_key ` A" for A :: "combined set"
    by (simp add: image_image fst_day_key)
  then show ?thesis by (simp add: day_rows_facts(2))
qed

text \<open>The rows of \<^verbatim>\<open>result.csv\<close>: one for every span with a visit in it, with the two
  counts of that span.\<close>

lemma result_row_iff:
  "(p, s, e, ct, days) \<in> set (result spans visits) \<longleftrightarrow>
     (p, s, e) \<in> set spans \<and> (\<exists>v \<in> set visits. in_span (p, s, e) v)
     \<and> ct = (if p = None then None
             else Some (int64 (int (count_list spans (p, s, e))
                          * sum_list (map count_or_zero (visits_in_span (p, s, e) visits)))))
     \<and> days = (if p = None then None
               else Some (length (filter (\<lambda>r'. span_key r' = (p, s, e) \<and> visit_count r' \<noteq> None)
                     (drop_duplicates_subset day_key (combined_in_enrollment spans visits)))))"
  (is "?L \<longleftrightarrow> ?R")
proof -
  let ?kept = "combined_in_enrollment spans visits"
  let ?rows = "drop_duplicates_subset day_key ?kept"
  let ?F = "\<lambda>r. case span_key r of (p, s, e) \<Rightarrow> (p, s, e, transform_sum ?kept r, transform_count ?rows r)"
  have F: "?F r = (p, s, e, ct, days) \<longleftrightarrow>
        span_key r = (p, s, e) \<and> ct = transform_sum ?kept r \<and> days = transform_count ?rows r" for r
    by (cases "span_key r") auto
  have L: "?L \<longleftrightarrow> (\<exists>r \<in> set ?rows. ?F r = (p, s, e, ct, days))"
    unfolding result_def set_aggregate by (simp add: image_iff eq_commute)
  show ?thesis
  proof
    assume ?L
    then obtain r where r: "r \<in> set ?rows" and k: "span_key r = (p, s, e)"
      and ct: "ct = transform_sum ?kept r" and days: "days = transform_count ?rows r"
      unfolding L F by blast
    from r have "(p, s, e) \<in> span_key ` set ?rows" using k by force
    then have "(p, s, e) \<in> span_key ` set ?kept" by (simp add: span_key_day_rows)
    then have "(p, s, e) \<in> set spans \<and> (\<exists>v \<in> set visits. in_span (p, s, e) v)"
      by (simp add: span_key_in_combined_iff)
    then show ?R
      using ct days transform_sum_combined[OF k, of spans visits] transform_count_key[OF k, of ?rows]
      by simp
  next
    assume R: ?R
    then have "(p, s, e) \<in> span_key ` set ?kept"
      by (simp add: span_key_in_combined_iff)
    then have "(p, s, e) \<in> span_key ` set ?rows" by (simp add: span_key_day_rows)
    then obtain r where r: "r \<in> set ?rows" and k: "span_key r = (p, s, e)" by force
    have "?F r = (p, s, e, ct, days)"
      unfolding F using R k transform_sum_combined[OF k, of spans visits] transform_count_key[OF k, of ?rows]
      by simp
    then show ?L unfolding L using r by blast
  qed
qed

text \<open>The number of de-duplicated rows of a span that carry a count is at most the
  number of distinct visit dates in the span, and equals it when every visit row in the
  span carries a count.\<close>

lemma counted_days:
  fixes spans :: "span list" and visits :: "visit list"
  assumes k: "k \<in> set spans"
  defines "rows \<equiv> drop_duplicates_subset day_key (combined_in_enrollment spans visits)"
  shows "length (filter (\<lambda>r'. span_key r' = k \<and> visit_count r' \<noteq> None) rows)
           \<le> card (days_with_visit k visits)"
    and "(\<forall>v \<in> set visits. in_span k v \<longrightarrow> snd (snd v) \<noteq> None) \<Longrightarrow>
         length (filter (\<lambda>r'. span_key r' = k \<and> visit_count r' \<noteq> None) rows)
           = card (days_with_visit k visits)"
proof -
  let ?kept = "combined_in_enrollment spans visits"
  let ?Q = "\<lambda>r'. span_key r' = k \<and> visit_count r' \<noteq> None"
  have dist: "distinct (map day_key rows)" and keys: "day_key ` set rows = day_key ` set ?kept"
    and sub: "set rows \<subseteq> set ?kept"
    unfolding rows_def by (rule day_rows_facts)+
  have inj: "inj_on day_key (set rows)" and drows: "distinct rows"
    using dist by (simp_all add: distinct_map)
  have fin: "finite (days_with_visit k visits)" by (simp add: days_with_visit_def)
  have len: "length (filter P rows) = card (day_key ` {r \<in> set rows. P r})" for P
  proof -
    have "distinct (filter P rows)" using drows by simp
    then have "length (filter P rows) = card (set (filter P rows))"
      by (rule distinct_card[symmetric])
    also have "\<dots> = card (day_key ` set (filter P rows))"
      by (rule card_image[symmetric]) (rule inj_on_subset[OF inj], auto)
    finally show ?thesis by simp
  qed
  have grp: "day_key ` {r \<in> set rows. span_key r = k} = Pair k ` days_with_visit k visits"
  proof -
    have "day_key ` {r \<in> set rows. span_key r = k} = {kd \<in> day_key ` set rows. fst kd = k}"
      by (auto simp: fst_day_key image_iff)
    also have "\<dots> = {kd \<in> day_key ` set ?kept. fst kd = k}" by (simp add: keys)
    also have "\<dots> = Pair k ` days_with_visit k visits"
    proof -
      have "kd \<in> day_key ` set ?kept \<and> fst kd = k \<longleftrightarrow> kd \<in> Pair k ` days_with_visit k visits" for kd
        using day_key_in_combined_iff[of "fst kd" "snd kd" spans visits] k
        by (cases kd) auto
      then show ?thesis by blast
    qed
    finally show ?thesis .
  qed
  have cardk: "card (Pair k ` days_with_visit k visits) = card (days_with_visit k visits)"
    by (rule card_image) (simp add: inj_on_def)
  have "day_key ` {r \<in> set rows. ?Q r} \<subseteq> day_key ` {r \<in> set rows. span_key r = k}" by blast
  then have "card (day_key ` {r \<in> set rows. ?Q r}) \<le> card (Pair k ` days_with_visit k visits)"
    unfolding grp using fin by (intro card_mono) auto
  then show "length (filter ?Q rows) \<le> card (days_with_visit k visits)"
    by (simp add: len cardk)
  show "length (filter ?Q rows) = card (days_with_visit k visits)"
    if all: "\<forall>v \<in> set visits. in_span k v \<longrightarrow> snd (snd v) \<noteq> None"
  proof -
    have "visit_count r \<noteq> None" if r: "r \<in> set rows" and kr: "span_key r = k" for r
    proof -
      obtain p s e d c where f: "r = (p, s, e, d, c)" by (cases r) auto
      from r sub have "r \<in> set ?kept" by blast
      then have "(p, d, c) \<in> set visits" "in_span (p, s, e) (p, d, c)"
        unfolding f set_combined_in_enrollment_iff by simp_all
      with all kr f show ?thesis by force
    qed
    then have "{r \<in> set rows. ?Q r} = {r \<in> set rows. span_key r = k}" by blast
    then show ?thesis by (simp add: len grp cardk)
  qed
qed

lemma count_list_distinct: "distinct xs \<Longrightarrow> x \<in> set xs \<Longrightarrow> count_list xs x = 1"
  by (induction xs) auto

lemma result_row_iff_counts_present:
  assumes "\<forall>v \<in> set visits. snd (snd v) \<noteq> None"
  shows "(p, s, e, ct, days) \<in> set (result spans visits) \<longleftrightarrow>
     (p, s, e) \<in> set spans \<and> (\<exists>v \<in> set visits. in_span (p, s, e) v)
     \<and> ct = (if p = None then None
             else Some (int64 (int (count_list spans (p, s, e))
                          * sum_list (map count_or_zero (visits_in_span (p, s, e) visits)))))
     \<and> days = (if p = None then None else Some (card (days_with_visit (p, s, e) visits)))"
proof (cases "(p, s, e) \<in> set spans")
  case True
  have "length (filter (\<lambda>r'. span_key r' = (p, s, e) \<and> visit_count r' \<noteq> None)
          (drop_duplicates_subset day_key (combined_in_enrollment spans visits)))
        = card (days_with_visit (p, s, e) visits)"
    by (rule counted_days(2)[OF True]) (use assms in blast)
  then show ?thesis unfolding result_row_iff by simp
next
  case False
  then show ?thesis unfolding result_row_iff by simp
qed

lemma sum_list_filter_mset_cong:
  fixes f :: "'a \<Rightarrow> int"
  assumes "mset xs = mset ys"
  shows "sum_list (map f (filter P xs)) = sum_list (map f (filter P ys))"
proof -
  have "mset (map f (filter P xs)) = mset (map f (filter P ys))"
    using assms by (simp add: mset_filter[symmetric] del: mset_filter) (metis mset_filter mset_map)
  then show ?thesis by (metis sum_mset_sum_list)
qed

lemma result_permuted_visits:
  assumes "mset visits = mset visits'" and "\<forall>v \<in> set visits. snd (snd v) \<noteq> None"
  shows "set (result spans visits) = set (result spans visits')"
proof -
  have s: "set visits = set visits'" using assms(1) by (rule mset_eq_setD)
  then have all': "\<forall>v \<in> set visits'. snd (snd v) \<noteq> None" using assms(2) by simp
  have sum: "sum_list (map count_or_zero (visits_in_span k visits))
       = sum_list (map count_or_zero (visits_in_span k visits'))" for k
    unfolding visits_in_span_def by (rule sum_list_filter_mset_cong[OF assms(1)])
  have days: "days_with_visit k visits = days_with_visit k visits'" for k
    by (simp add: days_with_visit_def visits_in_span_def s)
  have "row \<in> set (result spans visits) \<longleftrightarrow> row \<in> set (result spans visits')" for row
  proof -
    obtain p st e ct dy where f: "row = (p, st, e, ct, dy)" by (cases row) auto
    show ?thesis
      unfolding f result_row_iff_counts_present[OF assms(2)] result_row_iff_counts_present[OF all']
      by (simp add: sum days s)
  qed
  then show ?thesis by blast
qed


text \<open>The two counts of a row of the result computed from distinct span rows.\<close>

lemma result_counts_distinct:
  assumes "distinct spans" and "(Some pid, s, e, ct, days) \<in> set (result spans visits)"
  shows "ct = Some (int64 (sum_list (map count_or_zero (visits_in_span (Some pid, s, e) visits))))
       \<and> (\<exists>n. days = Some n \<and> n \<le> card (days_with_visit (Some pid, s, e) visits))
       \<and> ((\<forall>v \<in> set visits. in_span (Some pid, s, e) v \<longrightarrow> snd (snd v) \<noteq> None)
            \<longrightarrow> days = Some (card (days_with_visit (Some pid, s, e) visits)))"
proof -
  let ?k = "(Some pid, s, e)"
  from assms(2) have k: "?k \<in> set spans"
    and ct: "ct = Some (int64 (int (count_list spans ?k)
                   * sum_list (map count_or_zero (visits_in_span ?k visits))))"
    and days: "days = Some (length (filter (\<lambda>r'. span_key r' = ?k \<and> visit_count r' \<noteq> None)
                     (drop_duplicates_subset day_key (combined_in_enrollment spans visits))))"
    unfolding result_row_iff by simp_all
  have "count_list spans ?k = 1"
    using assms(1) k by (rule count_list_distinct)
  then have 1: "ct = Some (int64 (sum_list (map count_or_zero (visits_in_span ?k visits))))"
    using ct by simp
  have 2: "\<exists>n. days = Some n \<and> n \<le> card (days_with_visit ?k visits)"
    using days counted_days(1)[OF k, of visits] by simp
  have 3: "days = Some (card (days_with_visit ?k visits))"
    if "\<forall>v \<in> set visits. in_span ?k v \<longrightarrow> snd (snd v) \<noteq> None"
    using days counted_days(2)[OF k that] by simp
  show ?thesis using 1 2 3 by blast
qed


section \<open>Sorting is independent of the row order\<close>

text \<open>Rows with the same sort key are the same row, so the sorted frame is determined by
  the multiset of rows.\<close>

lemma filter_eq_replicate_count: "filter (\<lambda>x. k = x) xs = replicate (count (mset xs) k) k"
  by (induction xs) auto

lemma sort_key_inj_mset:
  assumes "inj f" and "mset xs = mset ys"
  shows "sort_key f xs = sort_key f ys"
proof (rule properties_for_sort_key)
  show "mset (sort_key f ys) = mset xs" using assms(2) by simp
  show "sorted (map f (sort_key f ys))" by simp
  fix k
  have eq: "(f k = f x) = (k = x)" for x using assms(1) by (auto dest: injD)
  show "filter (\<lambda>x. f k = f x) (sort_key f ys) = filter (\<lambda>x. f k = f x) xs"
    unfolding eq filter_eq_replicate_count using assms(2) by simp
qed

lemma inj_sort_values_key: "inj (\<lambda>(p :: string option, my :: date option). (na_last p, na_last my))"
  by (auto simp: inj_on_def na_last_def)

lemma sort_values_mset: "mset df = mset df' \<Longrightarrow> sort_values df = sort_values df'"
  unfolding sort_values_def by (rule sort_key_inj_mset[OF inj_sort_values_key])

lemma pt_enrollment_span_mset:
  "mset df = mset df' \<Longrightarrow> pt_enrollment_span df = pt_enrollment_span df'"
  by (simp add: pt_enrollment_span_def span_frame_def sort_values_mset[of df df'])


section \<open>The rows of the spans\<close>

text \<open>A group's dates are the dates of the rows with the group's number; the start and
  end columns hold the least and the greatest of them.\<close>

lemma set_map_filter: "set (List.map_filter f xs) = {y. \<exists>x \<in> set xs. f x = Some y}"
  by (induction xs) (auto simp: List.map_filter_simps split: option.splits)

lemma set_group_values:
  "set (group_values gs col g) = {v. \<exists>i. i < length gs \<and> i < length col \<and> gs ! i = g \<and> col ! i = Some v}"
proof -
  have "v \<in> set (group_values gs col g) \<longleftrightarrow> (\<exists>i. i < length gs \<and> i < length col \<and> gs ! i = g \<and> col ! i = Some v)" for v
  proof
    assume "v \<in> set (group_values gs col g)"
    then obtain x where x: "x \<in> set (zip gs col)" "(if fst x = g then snd x else None) = Some v"
      unfolding group_values_def set_map_filter by (auto simp: case_prod_unfold)
    from x(1) obtain i where "gs ! i = fst x" "col ! i = snd x" "i < length gs" "i < length col"
      unfolding in_set_zip by blast
    with x(2) show "\<exists>i. i < length gs \<and> i < length col \<and> gs ! i = g \<and> col ! i = Some v"
      by (intro exI[of _ i]) (auto split: if_splits)
  next
    assume "\<exists>i. i < length gs \<and> i < length col \<and> gs ! i = g \<and> col ! i = Some v"
    then obtain i where i: "i < length gs" "i < length col" "gs ! i = g" "col ! i = Some v" by blast
    then have "(g, Some v) \<in> set (zip gs col)"
      unfolding in_set_zip by (intro exI[of _ i]) simp
    then show "v \<in> set (group_values gs col g)"
      unfolding group_values_def set_map_filter by force
  qed
  then show ?thesis by blast
qed

lemma group_dates_iff:
  "d \<in> group_dates df i \<longleftrightarrow> (\<exists>j < length df. groups df ! j = groups df ! i \<and> snd (df ! j) = Some d)"
  unfolding group_dates_def set_group_values by (auto simp: length_groups)

lemma finite_group_dates: "finite (group_dates df i)"
  by (simp add: group_dates_def)

lemma enrollment_start_date_nth:
  "i < length df \<Longrightarrow>
   enrollment_start_date df ! i = (if group_dates df i = {} then None else Some (Min (group_dates df i)))"
  by (simp add: enrollment_start_date_def transform_min_def length_groups group_dates_def Let_def)

lemma enrollment_end_date_nth:
  "i < length df \<Longrightarrow>
   enrollment_end_date df ! i = (if group_dates df i = {} then None else Some (Max (group_dates df i)))"
  by (simp add: enrollment_end_date_def transform_max_def length_groups group_dates_def Let_def)

lemma in_set_concat_map: "x \<in> set (concat (map f xs)) \<longleftrightarrow> (\<exists>r \<in> set xs. x \<in> set (f r))"
  by auto

lemma endpoint_row_Some:
  "endpoint_row ((p0, Some d0), Some s0, Some e0) = (if s0 = d0 \<or> e0 = d0 then [(p0, s0, e0)] else [])"
  by (simp add: endpoint_row_def)

lemma endpoint_row_None:
  "endpoint_row ((p0, None), st, en) = []"
  "endpoint_row ((p0, my), None, en) = []"
  "endpoint_row ((p0, my), st, None) = []"
  by (simp_all add: endpoint_row_def split: option.splits)

lemma endpoint_row_iff:
  "(p, s, e) \<in> set (endpoint_row r) \<longleftrightarrow> (\<exists>d. r = ((p, Some d), Some s, Some e) \<and> (s = d \<or> e = d))"
proof -
  obtain p0 my st en where r: "r = ((p0, my), st, en)" by (cases r) auto
  show ?thesis
  proof (cases "\<exists>d0 s0 e0. my = Some d0 \<and> st = Some s0 \<and> en = Some e0")
    case False
    then have "my = None \<or> st = None \<or> en = None" by (metis not_Some_eq)
    then have "endpoint_row r = []" unfolding r using endpoint_row_None by blast
    moreover have "\<not> (\<exists>d. r = ((p, Some d), Some s, Some e) \<and> (s = d \<or> e = d))"
      using False unfolding r by blast
    ultimately show ?thesis by simp
  next
    case True
    then obtain d0 s0 e0 where my: "my = Some d0" and st: "st = Some s0" and en: "en = Some e0" by blast
    have L: "(p, s, e) \<in> set (endpoint_row r) \<longleftrightarrow> (s0 = d0 \<or> e0 = d0) \<and> p = p0 \<and> s = s0 \<and> e = e0"
      unfolding r my st en endpoint_row_Some by (cases "s0 = d0 \<or> e0 = d0") auto
    have R: "(\<exists>d. r = ((p, Some d), Some s, Some e) \<and> (s = d \<or> e = d))
        \<longleftrightarrow> (p0 = p \<and> s0 = s \<and> e0 = e \<and> (s = d0 \<or> e = d0))"
    proof
      assume "\<exists>d. r = ((p, Some d), Some s, Some e) \<and> (s = d \<or> e = d)"
      then obtain d where "r = ((p, Some d), Some s, Some e)" "s = d \<or> e = d" by blast
      then show "p0 = p \<and> s0 = s \<and> e0 = e \<and> (s = d0 \<or> e = d0)"
        unfolding r my st en by simp
    next
      assume "p0 = p \<and> s0 = s \<and> e0 = e \<and> (s = d0 \<or> e = d0)"
      then show "\<exists>d. r = ((p, Some d), Some s, Some e) \<and> (s = d \<or> e = d)"
        unfolding r my st en by (intro exI[of _ d0]) simp
    qed
    show ?thesis unfolding L R by metis
  qed
qed

lemma select_endpoints_iff:
  "(p, s, e) \<in> set (select_endpoints fr) \<longleftrightarrow>
     (\<exists>i < length fr. \<exists>d. fr ! i = ((p, Some d), Some s, Some e) \<and> (s = d \<or> e = d))"
proof -
  have "(p, s, e) \<in> set (select_endpoints fr) \<longleftrightarrow> (\<exists>r \<in> set fr. (p, s, e) \<in> set (endpoint_row r))"
    unfolding select_endpoints_def by (rule in_set_concat_map)
  also have "\<dots> \<longleftrightarrow> (\<exists>i < length fr. (p, s, e) \<in> set (endpoint_row (fr ! i)))"
  proof
    assume "\<exists>r \<in> set fr. (p, s, e) \<in> set (endpoint_row r)"
    then obtain r where "r \<in> set fr" and m: "(p, s, e) \<in> set (endpoint_row r)" by blast
    then obtain i where "i < length fr" "fr ! i = r" unfolding in_set_conv_nth by blast
    with m show "\<exists>i < length fr. (p, s, e) \<in> set (endpoint_row (fr ! i))" by blast
  next
    assume "\<exists>i < length fr. (p, s, e) \<in> set (endpoint_row (fr ! i))"
    then obtain i where "i < length fr" and m: "(p, s, e) \<in> set (endpoint_row (fr ! i))" by blast
    then have "fr ! i \<in> set fr" by simp
    with m show "\<exists>r \<in> set fr. (p, s, e) \<in> set (endpoint_row r)" by blast
  qed
  finally show ?thesis unfolding endpoint_row_iff .
qed

text \<open>A row of the spans: some row of the patient in the sorted frame carries the least or
  the greatest date of its group.\<close>

lemma select_endpoints_span_frame_iff:
  "(p, s, e) \<in> set (select_endpoints (span_frame df)) \<longleftrightarrow>
     (\<exists>i < length df. \<exists>d. sort_values df ! i = (p, Some d)
        \<and> s = Min (group_dates (sort_values df) i) \<and> e = Max (group_dates (sort_values df) i)
        \<and> (s = d \<or> e = d))"
proof -
  let ?s = "sort_values df"
  have ne: "group_dates ?s i \<noteq> {}" if "i < length df" "?s ! i = (p, Some d)" for i d
  proof -
    have "d \<in> group_dates ?s i"
      unfolding group_dates_iff using that by (intro exI[of _ i]) (simp add: length_sort_values)
    then show ?thesis by blast
  qed
  have row: "span_frame df ! i = ((p, Some d), Some s, Some e) \<longleftrightarrow>
       ?s ! i = (p, Some d) \<and> s = Min (group_dates ?s i) \<and> e = Max (group_dates ?s i)"
    if "i < length df" for i d
    using that ne[OF that, of d]
    by (auto simp: span_frame_nth enrollment_start_date_nth enrollment_end_date_nth length_sort_values)
  show ?thesis
    unfolding select_endpoints_iff length_span_frame using row by blast
qed

lemma pt_enrollment_span_iff:
  "(p, s, e) \<in> set (pt_enrollment_span df) \<longleftrightarrow>
     (\<exists>e'. (p, s, e') \<in> set (select_endpoints (span_frame df)) \<and> e = MonthEnd0 e')"
proof -
  have "(p, s, e) \<in> set (pt_enrollment_span df) \<longleftrightarrow>
      (\<exists>r \<in> set (select_endpoints (span_frame df)). (p, s, e) = (fst r, fst (snd r), MonthEnd0 (snd (snd r))))"
    unfolding pt_enrollment_span_def set_map set_drop_duplicates
    by (simp add: image_iff case_prod_unfold)
  also have "\<dots> \<longleftrightarrow> (\<exists>e'. (p, s, e') \<in> set (select_endpoints (span_frame df)) \<and> e = MonthEnd0 e')"
  proof
    assume "\<exists>r \<in> set (select_endpoints (span_frame df)). (p, s, e) = (fst r, fst (snd r), MonthEnd0 (snd (snd r)))"
    then obtain r where r: "r \<in> set (select_endpoints (span_frame df))"
      "(p, s, e) = (fst r, fst (snd r), MonthEnd0 (snd (snd r)))" by blast
    then have "r = (p, s, snd (snd r))" by (simp add: prod_eq_iff)
    then show "\<exists>e'. (p, s, e') \<in> set (select_endpoints (span_frame df)) \<and> e = MonthEnd0 e'"
      using r by (intro exI[of _ "snd (snd r)"]) auto
  next
    assume "\<exists>e'. (p, s, e') \<in> set (select_endpoints (span_frame df)) \<and> e = MonthEnd0 e'"
    then obtain e' where "(p, s, e') \<in> set (select_endpoints (span_frame df))" "e = MonthEnd0 e'" by blast
    then show "\<exists>r \<in> set (select_endpoints (span_frame df)). (p, s, e) = (fst r, fst (snd r), MonthEnd0 (snd (snd r)))"
      by (intro bexI[of _ "(p, s, e')"]) simp_all
  qed
  finally show ?thesis .
qed





section \<open>Groups of the sorted frame\<close>

text \<open>Group numbers grow along the frame; within a group every row's month is the
  previous row's month plus one, so in a single-year frame the dates of a group increase
  strictly and its least and greatest dates sit at its first and last rows.\<close>

lemma date_less_by_month: "year a = year b \<Longrightarrow> month a < month b \<Longrightarrow> a < b"
  by (simp add: year_def month_def less_prod_def)

lemma date_le_month: "year a = year b \<Longrightarrow> a \<le> b \<Longrightarrow> month a \<le> month b"
  by (auto simp: year_def month_def less_eq_prod_def)

lemma MonthEnd0_less: "year a = year b \<Longrightarrow> month a < month b \<Longrightarrow> MonthEnd0 a < b"
  by (simp add: year_def month_def less_prod_def MonthEnd0_def)

lemma groups_mono: "i \<le> j \<Longrightarrow> j < length df \<Longrightarrow> groups df ! i \<le> groups df ! j"
proof (induction j)
  case 0
  then show ?case by simp
next
  case (Suc j)
  show ?case
  proof (cases "i = Suc j")
    case True
    then show ?thesis by simp
  next
    case False
    with Suc.prems have "i \<le> j" "j < length df" by simp_all
    then have "groups df ! i \<le> groups df ! j" by (rule Suc.IH)
    also have "\<dots> \<le> groups df ! Suc j" by (simp add: groups_step[OF Suc.prems(2)])
    finally show ?thesis .
  qed
qed

lemma groups_less_index:
  assumes "groups df ! i < groups df ! j" and "i < length df" and "j < length df"
  shows "i < j"
proof (rule ccontr)
  assume "\<not> i < j"
  then have "j \<le> i" by simp
  then have "groups df ! j \<le> groups df ! i" using assms(2) by (rule groups_mono)
  with assms(1) show False by simp
qed

lemma same_group_between:
  assumes "i \<le> k" and "k \<le> j" and "j < length df" and "groups df ! i = groups df ! j"
  shows "groups df ! k = groups df ! i"
proof -
  have "k < length df" using assms(2,3) by simp
  with assms(1) have "groups df ! i \<le> groups df ! k" by (rule groups_mono)
  moreover have "groups df ! k \<le> groups df ! j" using assms(2,3) by (rule groups_mono)
  ultimately show ?thesis using assms(4) by simp
qed

lemma same_group_no_break:
  assumes "i \<le> k" and "Suc k \<le> j" and "j < length df" and "groups df ! i = groups df ! j"
  shows "\<not> breaks df ! Suc k"
proof -
  have k: "k \<le> j" and sk: "i \<le> Suc k" using assms(1,2) by simp_all
  have a: "groups df ! k = groups df ! i"
    by (rule same_group_between[OF assms(1) k assms(3,4)])
  have b: "groups df ! Suc k = groups df ! i"
    by (rule same_group_between[OF sk assms(2,3,4)])
  have "Suc k < length df" using assms(2,3) by simp
  from groups_step[OF this] a b show ?thesis by (simp split: if_splits)
qed

lemma same_group_months:
  assumes "i \<le> j" and "j < length df" and "groups df ! i = groups df ! j"
    and "snd (df ! i) = Some di"
  shows "\<exists>dj. snd (df ! j) = Some dj \<and> month dj = month di + int (j - i)"
  using assms
proof (induction j)
  case 0
  then show ?case by simp
next
  case (Suc j)
  show ?case
  proof (cases "i = Suc j")
    case True
    then show ?thesis using Suc.prems(4) by simp
  next
    case False
    with Suc.prems have ij: "i \<le> j" and j: "j < length df" by simp_all
    have "j \<le> Suc j" by simp
    from same_group_between[OF ij this Suc.prems(2,3)]
    have g: "groups df ! i = groups df ! j" by simp
    from Suc.IH[OF ij j g Suc.prems(4)] obtain dj where
      dj: "snd (df ! j) = Some dj" "month dj = month di + int (j - i)" by blast
    have "Suc j \<le> Suc j" by simp
    from same_group_no_break[OF ij this Suc.prems(2,3)]
    have "\<not> breaks df ! Suc j" .
    then have "na_minus (map_option month (snd (df ! Suc j))) (map_option month (snd (df ! j))) = Some 1"
      by (simp add: breaks_nth_Suc[OF Suc.prems(2)])
    then obtain d' where "snd (df ! Suc j) = Some d'" "month d' - month dj = 1"
      using dj(1) by (cases "snd (df ! Suc j)") (simp_all add: na_minus_def)
    then show ?thesis using dj(2) ij by (intro exI[of _ d']) (simp add: Suc_diff_le)
  qed
qed

lemma same_group_dates_increase:
  assumes "i < j" and "j < length df" and "groups df ! i = groups df ! j"
    and "snd (df ! i) = Some di" and "snd (df ! j) = Some dj" and "year di = year dj"
  shows "di < dj"
proof -
  have "i \<le> j" using assms(1) by simp
  from same_group_months[OF this assms(2,3,4)] assms(5)
  have "month dj = month di + int (j - i)" by simp
  then have "month di < month dj" using assms(1) by simp
  with assms(6) show ?thesis by (rule date_less_by_month)
qed

lemma single_year_nth:
  assumes "single_year y df" and "i < length df"
  shows "\<exists>d. snd (df ! i) = Some d \<and> year d = y"
proof -
  have "df ! i \<in> set df" using assms(2) by simp
  with assms(1) have "map_option year (snd (df ! i)) = Some y"
    unfolding single_year_def by blast
  then show ?thesis by (cases "snd (df ! i)") simp_all
qed

lemma single_year_sort_values: "single_year y (sort_values df) = single_year y df"
  by (simp add: single_year_def sort_values_def)

lemma one_row_per_month_sort_values: "one_row_per_month (sort_values df) = one_row_per_month df"
proof -
  let ?g = "\<lambda>r :: enrollment. (fst r, map_option month (snd r))"
  have "mset (map ?g (sort_values df)) = mset (map ?g df)"
    by (simp add: sort_values_def)
  then show ?thesis unfolding one_row_per_month_def by (rule mset_eq_imp_distinct_iff)
qed

lemma na_last_inj: "na_last a = na_last b \<Longrightarrow> a = b"
  by (simp add: na_last_def)

lemma sort_values_nth_mono:
  assumes "i \<le> j" and "j < length df"
  shows "(na_last (fst (sort_values df ! i)), na_last (snd (sort_values df ! i)))
       \<le> (na_last (fst (sort_values df ! j)), na_last (snd (sort_values df ! j)))"
proof -
  let ?f = "\<lambda>(p :: string option, my :: date option). (na_last p, na_last my)"
  have len: "j < length (map ?f (sort_values df))" using assms(2) by (simp add: length_sort_values)
  have "sorted (map ?f (sort_values df))" unfolding sort_values_def by (rule sorted_sort_key)
  from sorted_nth_mono[OF this assms(1) len]
  show ?thesis using assms by (simp only: nth_map length_sort_values case_prod_unfold length_map le_less_trans)
qed

lemma sort_values_pid_mono:
  assumes "i \<le> j" and "j < length df"
  shows "na_last (fst (sort_values df ! i)) \<le> na_last (fst (sort_values df ! j))"
  using sort_values_nth_mono[OF assms] unfolding less_eq_prod_simp by (rule disjE) simp_all

lemma sort_values_date_mono:
  assumes "i \<le> j" and "j < length df" and "fst (sort_values df ! i) = fst (sort_values df ! j)"
    and "snd (sort_values df ! i) = Some a" and "snd (sort_values df ! j) = Some b"
  shows "a \<le> b"
proof -
  from sort_values_nth_mono[OF assms(1,2)]
  have "na_last (Some a) \<le> na_last (Some b)"
    unfolding less_eq_prod_simp assms(3,4,5) by simp
  then show ?thesis unfolding na_last_def less_eq_prod_simp by simp
qed

lemma group_dates_nthI:
  "j < length df \<Longrightarrow> groups df ! j = groups df ! i \<Longrightarrow> snd (df ! j) = Some d \<Longrightarrow> d \<in> group_dates df i"
  unfolding group_dates_iff by blast

lemma group_min_is_first:
  assumes "single_year y xs" and "i < length xs" and "snd (xs ! i) = Some di"
    and "di = Min (group_dates xs i)" and "j < i" and "groups xs ! j = groups xs ! i"
  shows False
proof -
  have jl: "j < length xs" using assms(2,5) by simp
  from single_year_nth[OF assms(1) jl] obtain dj where dj: "snd (xs ! j) = Some dj" "year dj = y" by blast
  from single_year_nth[OF assms(1,2)] assms(3) have "year di = y" by simp
  with dj(2) have "year dj = year di" by simp
  from same_group_dates_increase[OF assms(5,2,6) dj(1) assms(3) this] have "dj < di" .
  moreover have "dj \<in> group_dates xs i" using jl assms(6) dj(1) by (rule group_dates_nthI)
  then have "Min (group_dates xs i) \<le> dj" by (intro Min_le finite_group_dates)
  ultimately show False using assms(4) by simp
qed

lemma group_max_is_last:
  assumes "single_year y xs" and "j < length xs" and "snd (xs ! i) = Some di"
    and "di = Max (group_dates xs i)" and "i < j" and "groups xs ! j = groups xs ! i"
  shows False
proof -
  have il: "i < length xs" using assms(2,5) by simp
  from single_year_nth[OF assms(1,2)] obtain dj where dj: "snd (xs ! j) = Some dj" "year dj = y" by blast
  from single_year_nth[OF assms(1) il] assms(3) have "year di = y" by simp
  with dj(2) have "year di = year dj" by simp
  from same_group_dates_increase[OF assms(5,2) assms(6)[symmetric] assms(3) dj(1) this] have "di < dj" .
  moreover have "dj \<in> group_dates xs i" using assms(2,6) dj(1) by (rule group_dates_nthI)
  then have "dj \<le> Max (group_dates xs i)" by (intro Max_ge finite_group_dates)
  ultimately show False using assms(4) by simp
qed

lemma group_dates_nonempty:
  assumes "i < length xs" and "snd (xs ! i) = Some di"
  shows "group_dates xs i \<noteq> {}"
proof -
  have "di \<in> group_dates xs i" using assms(1) refl assms(2) by (rule group_dates_nthI)
  then show ?thesis by blast
qed

lemma group_dates_memberE:
  assumes "d \<in> group_dates xs i"
  obtains a where "a < length xs" and "groups xs ! a = groups xs ! i" and "snd (xs ! a) = Some d"
  using assms unfolding group_dates_iff by blast

text \<open>Two rows of one patient that are selected from different groups of a single-year
  frame: the earlier group ends, and the later group starts, at a row of that patient, and
  the greatest date of the earlier group is at most the least date of the later one.\<close>

lemma later_group_rows:
  fixes df :: "enrollment list"
  defines "xs \<equiv> sort_values df"
  assumes sy: "single_year y df"
    and i: "i < length df" and j: "j < length df"
    and ri: "xs ! i = (p, Some di)" and rj: "xs ! j = (p, Some dj)"
    and g: "groups xs ! i < groups xs ! j"
    and ei: "di = Min (group_dates xs i) \<or> di = Max (group_dates xs i)"
    and ej: "dj = Min (group_dates xs j) \<or> dj = Max (group_dates xs j)"
  obtains a b where "a < b" and "b < length df"
    and "groups xs ! a = groups xs ! i" and "groups xs ! b = groups xs ! j"
    and "xs ! a = (p, Some (Max (group_dates xs i)))" and "xs ! b = (p, Some (Min (group_dates xs j)))"
    and "Max (group_dates xs i) \<le> Min (group_dates xs j)"
proof -
  have len: "length xs = length df" by (simp add: xs_def length_sort_values)
  have syx: "single_year y xs" using sy by (simp add: xs_def single_year_sort_values)
  have il: "i < length xs" and jl: "j < length xs" using i j len by simp_all
  have si: "snd (xs ! i) = Some di" and sj: "snd (xs ! j) = Some dj"
    and pi: "fst (xs ! i) = p" and pj: "fst (xs ! j) = p"
    using ri rj by simp_all
  have nei: "group_dates xs i \<noteq> {}" using il si by (rule group_dates_nonempty)
  have nej: "group_dates xs j \<noteq> {}" using jl sj by (rule group_dates_nonempty)
  have "Max (group_dates xs i) \<in> group_dates xs i" by (rule Max_in[OF finite_group_dates nei])
  then obtain a where a: "a < length xs" "groups xs ! a = groups xs ! i"
    "snd (xs ! a) = Some (Max (group_dates xs i))" by (rule group_dates_memberE)
  have "Min (group_dates xs j) \<in> group_dates xs j" by (rule Min_in[OF finite_group_dates nej])
  then obtain b where b: "b < length xs" "groups xs ! b = groups xs ! j"
    "snd (xs ! b) = Some (Min (group_dates xs j))" by (rule group_dates_memberE)
  have ab: "a < b"
    by (rule groups_less_index[of xs]) (use g a b in simp_all)
  have yi: "year di = y" using single_year_nth[OF syx il] si by simp
  have yj: "year dj = y" using single_year_nth[OF syx jl] sj by simp
  have ia: "i \<le> a"
  proof (rule ccontr)
    assume "\<not> i \<le> a"
    then have lt: "a < i" by simp
    from ei show False
    proof
      assume "di = Min (group_dates xs i)"
      from group_min_is_first[OF syx il si this lt a(2)] show False .
    next
      assume m: "di = Max (group_dates xs i)"
      then have "snd (xs ! a) = Some di" using a(3) by simp
      from same_group_dates_increase[OF lt il a(2) this si] have "di < di" by simp
      then show False by simp
    qed
  qed
  have bj: "b \<le> j"
  proof (rule ccontr)
    assume "\<not> b \<le> j"
    then have lt: "j < b" by simp
    from ej show False
    proof
      assume "dj = Max (group_dates xs j)"
      from group_max_is_last[OF syx b(1) sj this lt b(2)] show False .
    next
      assume m: "dj = Min (group_dates xs j)"
      then have "snd (xs ! b) = Some dj" using b(3) by simp
      from same_group_dates_increase[OF lt b(1) b(2)[symmetric] sj this] have "dj < dj" by simp
      then show False by simp
    qed
  qed
  have al: "a < length df" and bl: "b < length df" using a(1) b(1) len by simp_all
  have ab': "a \<le> b" using ab by simp
  have c1: "na_last p \<le> na_last (fst (xs ! a))"
    using sort_values_pid_mono[OF ia al] pi by (simp add: xs_def)
  have c2: "na_last (fst (xs ! a)) \<le> na_last (fst (xs ! b))"
    using sort_values_pid_mono[OF ab' bl] by (simp add: xs_def)
  have c3: "na_last (fst (xs ! b)) \<le> na_last p"
    using sort_values_pid_mono[OF bj j] pj by (simp add: xs_def)
  have "na_last (fst (xs ! a)) \<le> na_last p" using c2 c3 by (rule order.trans)
  then have "na_last (fst (xs ! a)) = na_last p" using c1 by (rule order.antisym)
  then have pa: "fst (xs ! a) = p" by (rule na_last_inj)
  have "na_last p \<le> na_last (fst (xs ! b))" using c1 c2 by (rule order.trans)
  with c3 have "na_last (fst (xs ! b)) = na_last p" by (rule order.antisym)
  then have pb: "fst (xs ! b) = p" by (rule na_last_inj)
  have le: "Max (group_dates xs i) \<le> Min (group_dates xs j)"
    using sort_values_date_mono[OF ab' bl, of "Max (group_dates xs i)" "Min (group_dates xs j)"]
      pa pb a(3) b(3) by (simp add: xs_def)
  have ra: "xs ! a = (p, Some (Max (group_dates xs i)))" using pa a(3) by (simp add: prod_eq_iff)
  have rb: "xs ! b = (p, Some (Min (group_dates xs j)))" using pb b(3) by (simp add: prod_eq_iff)
  from that[OF ab bl a(2) b(2) ra rb le] show thesis .
qed

lemma later_group_starts_after:
  fixes df :: "enrollment list"
  defines "xs \<equiv> sort_values df"
  assumes sy: "single_year y df" and om: "one_row_per_month df"
    and i: "i < length df" and j: "j < length df"
    and ri: "xs ! i = (p, Some di)" and rj: "xs ! j = (p, Some dj)"
    and g: "groups xs ! i < groups xs ! j"
    and ei: "di = Min (group_dates xs i) \<or> di = Max (group_dates xs i)"
    and ej: "dj = Min (group_dates xs j) \<or> dj = Max (group_dates xs j)"
  shows "MonthEnd0 (Max (group_dates xs i)) < Min (group_dates xs j)"
proof -
  let ?da = "Max (group_dates xs i)" and ?db = "Min (group_dates xs j)"
  have len: "length xs = length df" by (simp add: xs_def length_sort_values)
  have syx: "single_year y xs" using sy by (simp add: xs_def single_year_sort_values)
  from later_group_rows[OF sy i j ri[unfolded xs_def] rj[unfolded xs_def] g[unfolded xs_def]
      ei[unfolded xs_def] ej[unfolded xs_def], folded xs_def]
  obtain a b where ab: "a < b" and bl: "b < length df"
    and ra: "xs ! a = (p, Some ?da)" and rb: "xs ! b = (p, Some ?db)" and le: "?da \<le> ?db"
    by blast
  have al: "a < length xs" and bl': "b < length xs" using ab bl len by simp_all
  have ya: "year ?da = y" using single_year_nth[OF syx al] ra by simp
  have yb: "year ?db = y" using single_year_nth[OF syx bl'] rb by simp
  have "one_row_per_month xs" using om by (simp add: xs_def one_row_per_month_sort_values)
  then have "distinct (map (\<lambda>r. (fst r, map_option month (snd r))) xs)"
    unfolding one_row_per_month_def .
  then have "map (\<lambda>r. (fst r, map_option month (snd r))) xs ! a
      \<noteq> map (\<lambda>r. (fst r, map_option month (snd r))) xs ! b"
    using ab al bl' by (simp add: nth_eq_iff_index_eq del: nth_map)
  then have mne: "month ?da \<noteq> month ?db"
    using al bl' ra rb by simp
  have "month ?da \<le> month ?db"
    using ya yb le by (intro date_le_month) simp_all
  with mne have "month ?da < month ?db" by simp
  then show ?thesis using ya yb by (intro MonthEnd0_less) simp_all
qed

lemma MonthEnd0_eq_month: "MonthEnd0 a = MonthEnd0 b \<Longrightarrow> month a = month b"
  by (simp add: MonthEnd0_def)

lemma same_group_same_month:
  assumes "b < length df" and "c < length df" and "groups df ! b = groups df ! c"
    and "snd (df ! b) = Some db" and "snd (df ! c) = Some dc" and "month db = month dc"
  shows "b = c"
proof (rule ccontr)
  assume "b \<noteq> c"
  then consider "b < c" | "c < b" by linarith
  then show False
  proof cases
    case 1
    then have "b \<le> c" by simp
    from same_group_months[OF this assms(2,3,4)] assms(5,6) 1 show False by simp
  next
    case 2
    then have "c \<le> b" by simp
    from same_group_months[OF this assms(1) assms(3)[symmetric] assms(5)] assms(4,6) 2 show False by simp
  qed
qed

lemma later_group_same_start_same_end:
  fixes df :: "enrollment list"
  defines "xs \<equiv> sort_values df"
  assumes sy: "single_year y df"
    and i: "i < length df" and j: "j < length df"
    and ri: "xs ! i = (p, Some di)" and rj: "xs ! j = (p, Some dj)"
    and g: "groups xs ! i < groups xs ! j"
    and ei: "di = Min (group_dates xs i) \<or> di = Max (group_dates xs i)"
    and ej: "dj = Min (group_dates xs j) \<or> dj = Max (group_dates xs j)"
    and smin: "Min (group_dates xs i) = Min (group_dates xs j)"
    and me: "MonthEnd0 (Max (group_dates xs i)) = MonthEnd0 (Max (group_dates xs j))"
  shows "Max (group_dates xs i) = Max (group_dates xs j)"
proof -
  have len: "length xs = length df" by (simp add: xs_def length_sort_values)
  have il: "i < length xs" and jl: "j < length xs" using i j len by simp_all
  have si: "snd (xs ! i) = Some di" and sj: "snd (xs ! j) = Some dj" using ri rj by simp_all
  have nei: "group_dates xs i \<noteq> {}" using il si by (rule group_dates_nonempty)
  have nej: "group_dates xs j \<noteq> {}" using jl sj by (rule group_dates_nonempty)
  from later_group_rows[OF sy i j ri[unfolded xs_def] rj[unfolded xs_def] g[unfolded xs_def]
      ei[unfolded xs_def] ej[unfolded xs_def], folded xs_def]
  obtain a b where bl: "b < length df" and gb: "groups xs ! b = groups xs ! j"
    and rb: "xs ! b = (p, Some (Min (group_dates xs j)))"
    and le: "Max (group_dates xs i) \<le> Min (group_dates xs j)"
    by blast
  have "Max (group_dates xs i) \<in> group_dates xs i" by (rule Max_in[OF finite_group_dates nei])
  then have "Min (group_dates xs i) \<le> Max (group_dates xs i)" by (intro Min_le finite_group_dates)
  with le smin have eq: "Max (group_dates xs i) = Min (group_dates xs j)" by simp
  have "Max (group_dates xs j) \<in> group_dates xs j" by (rule Max_in[OF finite_group_dates nej])
  then obtain c where c: "c < length xs" "groups xs ! c = groups xs ! j"
    "snd (xs ! c) = Some (Max (group_dates xs j))" by (rule group_dates_memberE)
  have mm: "month (Min (group_dates xs j)) = month (Max (group_dates xs j))"
    using MonthEnd0_eq_month[OF me] eq by simp
  have bl': "b < length xs" using bl len by simp
  have gbc: "groups xs ! b = groups xs ! c" using gb c(2) by simp
  have sb: "snd (xs ! b) = Some (Min (group_dates xs j))" using rb by simp
  from same_group_same_month[OF bl' c(1) gbc sb c(3) mm] have "b = c" .
  then have "Max (group_dates xs j) = Min (group_dates xs j)" using rb c(3) by simp
  with eq show ?thesis by simp
qed

text \<open>For single-year input the rows of \<^verbatim>\<open>patient_enrollment_span.csv\<close> are pairwise
  different, also after the end dates are moved to the end of the month.\<close>

lemma pt_enrollment_span_distinct:
  assumes "single_year y df"
  shows "distinct (pt_enrollment_span df)"
proof -
  let ?xs = "sort_values df"
  let ?sel = "select_endpoints (span_frame df)"
  let ?f = "\<lambda>(p :: string option, s :: date, e :: date). (p, s, MonthEnd0 e)"
  have key: "e1 = e2"
    if m1: "(p, s, e1) \<in> set ?sel" and m2: "(p, s, e2) \<in> set ?sel"
      and me: "MonthEnd0 e1 = MonthEnd0 e2" for p s e1 e2
  proof -
    from m1 obtain i di where i: "i < length df" and ri: "?xs ! i = (p, Some di)"
      and s1: "s = Min (group_dates ?xs i)" and e1: "e1 = Max (group_dates ?xs i)"
      and ei: "s = di \<or> e1 = di"
      unfolding select_endpoints_span_frame_iff by blast
    from m2 obtain j dj where j: "j < length df" and rj: "?xs ! j = (p, Some dj)"
      and s2: "s = Min (group_dates ?xs j)" and e2: "e2 = Max (group_dates ?xs j)"
      and ej: "s = dj \<or> e2 = dj"
      unfolding select_endpoints_span_frame_iff by blast
    have ei': "di = Min (group_dates ?xs i) \<or> di = Max (group_dates ?xs i)" using ei s1 e1 by auto
    have ej': "dj = Min (group_dates ?xs j) \<or> dj = Max (group_dates ?xs j)" using ej s2 e2 by auto
    have smin: "Min (group_dates ?xs i) = Min (group_dates ?xs j)" using s1 s2 by simp
    have me': "MonthEnd0 (Max (group_dates ?xs i)) = MonthEnd0 (Max (group_dates ?xs j))"
      using me e1 e2 by simp
    consider "groups ?xs ! i = groups ?xs ! j" | "groups ?xs ! i < groups ?xs ! j"
      | "groups ?xs ! j < groups ?xs ! i" by linarith
    then show ?thesis
    proof cases
      case 1
      then have "group_dates ?xs i = group_dates ?xs j" by (simp add: group_dates_def)
      then show ?thesis using e1 e2 by simp
    next
      case 2
      from later_group_same_start_same_end[OF assms i j ri rj 2 ei' ej' smin me']
      show ?thesis using e1 e2 by simp
    next
      case 3
      from later_group_same_start_same_end[OF assms j i rj ri 3 ej' ei' smin[symmetric] me'[symmetric]]
      show ?thesis using e1 e2 by simp
    qed
  qed
  have "inj_on ?f (set (drop_duplicates ?sel))"
  proof (rule inj_onI)
    fix r1 r2 assume r1: "r1 \<in> set (drop_duplicates ?sel)" and r2: "r2 \<in> set (drop_duplicates ?sel)"
      and eq: "?f r1 = ?f r2"
    obtain p1 s1 e1 where f1: "r1 = (p1, s1, e1)" by (cases r1) auto
    obtain p2 s2 e2 where f2: "r2 = (p2, s2, e2)" by (cases r2) auto
    from eq have pe: "p2 = p1" and se: "s2 = s1" and me: "MonthEnd0 e1 = MonthEnd0 e2"
      unfolding f1 f2 by simp_all
    from r1 have m1: "(p1, s1, e1) \<in> set ?sel" unfolding f1 set_drop_duplicates .
    from r2 have m2: "(p1, s1, e2) \<in> set ?sel" unfolding f2 pe se set_drop_duplicates .
    from key[OF m1 m2 me] show "r1 = r2" unfolding f1 f2 pe se by simp
  qed
  then show ?thesis
    unfolding pt_enrollment_span_def by (simp add: distinct_map distinct_drop_duplicates)
qed


section \<open>The end-to-end scenario of the specification\<close>

text \<open>Patient P1 enrolled in months 1, 2, 3 of 2023, with visits on 1/5, 1/5 and 2/10 of
  counts 1, 1 and 2: one span and one output row, 2023-01-01 to 2023-03-31, 4 visits on 2
  days; the three printed checks are \<open>True\<close>.\<close>

lemma end_to_end_scenario:
  "task_b [(Some ''P1'', Some (Parsed (2023, 1, 1))), (Some ''P1'', Some (Parsed (2023, 2, 1))),
           (Some ''P1'', Some (Parsed (2023, 3, 1)))]
          [(Some ''P1'', Some (Parsed (2023, 1, 5)), Some (Parsed 1)),
           (Some ''P1'', Some (Parsed (2023, 1, 5)), Some (Parsed 1)),
           (Some ''P1'', Some (Parsed (2023, 2, 10)), Some (Parsed 2))]
     = ([Check True, SpanRows 1, Check True, Check True, DistinctDayCounts 1],
        Some [(Some ''P1'', (2023, 1, 1), (2023, 3, 31))],
        Inr [(Some ''P1'', (2023, 1, 1), (2023, 3, 31), Some 4, Some 2)])"
  by code_simp

section \<open>Groups run across patients\<close>

text \<open>
  C1. The specification: for single-year input, each patient gets exactly the maximal
  runs of that patient's consecutive months, and months of different patients are never
  grouped into one span; the script's docstring says the same (groups are made for each
  \<^verbatim>\<open>patient_id\<close>). The script, however, takes \<^verbatim>\<open>dt.diff()\<close> over the whole sorted
  frame, not per patient: patient A enrolled in March 2023 only and patient B enrolled in
  April 2023 only fall into one group, and each gets the span 2023-03-01 to 2023-04-30.
\<close>

theorem pt_enrollment_span_groups_across_patients:
  "pt_enrollment_span [(Some ''A'', Some (2023, 3, 1)), (Some ''B'', Some (2023, 4, 1))]
     = [(Some ''A'', (2023, 3, 1), (2023, 4, 30)), (Some ''B'', (2023, 3, 1), (2023, 4, 30))]"
  by code_simp


section \<open>Spans of one patient do not overlap\<close>

text \<open>
  C2 does not hold as the specification states it: for single-year input the spans of a
  patient are to be non-overlapping also when the input repeats a (patient, month) row.
  A repeated row has month difference 0, which the script counts as a break: the records
  January, January, February of one patient give the spans January and January to
  February, which overlap.
\<close>

theorem duplicate_month_rows_overlap:
  "single_year 2023 [(Some ''A'', Some (2023, 1, 1)), (Some ''A'', Some (2023, 1, 1)), (Some ''A'', Some (2023, 2, 1))]
   \<and> pt_enrollment_span [(Some ''A'', Some (2023, 1, 1)), (Some ''A'', Some (2023, 1, 1)), (Some ''A'', Some (2023, 2, 1))]
     = [(Some ''A'', (2023, 1, 1), (2023, 1, 31)), (Some ''A'', (2023, 1, 1), (2023, 2, 28))]
   \<and> \<not> non_overlapping (pt_enrollment_span
        [(Some ''A'', Some (2023, 1, 1)), (Some ''A'', Some (2023, 1, 1)), (Some ''A'', Some (2023, 2, 1))])"
proof -
  let ?df = "[(Some ''A'', Some (2023, 1, 1)), (Some ''A'', Some (2023, 1, 1)), (Some ''A'', Some (2023, 2, 1))] :: enrollment list"
  have y: "single_year 2023 ?df" by (simp add: single_year_def year_def)
  have e: "pt_enrollment_span ?df
     = [(Some ''A'', (2023, 1, 1), (2023, 1, 31)), (Some ''A'', (2023, 1, 1), (2023, 2, 28))]"
    by code_simp
  have "\<not> non_overlapping (pt_enrollment_span ?df)"
    unfolding e by (simp add: non_overlapping_def overlap_def)
  with y e show ?thesis by blast
qed

text \<open>
  C2, amended: for single-year input in which no patient has two records in the same
  month, the spans emitted for a patient are pairwise non-overlapping. (Whether a span is
  a maximal run of the patient's own months is the subject of C1.)
\<close>

theorem spans_do_not_overlap:
  assumes "single_year y df" and "one_row_per_month df"
  shows "non_overlapping (pt_enrollment_span df)"
proof -
  let ?xs = "sort_values df"
  have key: "e1 < s2 \<or> e2 < s1"
    if m1: "(p, s1, e1) \<in> set (pt_enrollment_span df)"
      and m2: "(p, s2, e2) \<in> set (pt_enrollment_span df)"
      and ne: "(s1, e1) \<noteq> (s2, e2)" for p s1 e1 s2 e2
  proof -
    from m1 obtain i di where i: "i < length df" and ri: "?xs ! i = (p, Some di)"
      and s1: "s1 = Min (group_dates ?xs i)" and e1: "e1 = MonthEnd0 (Max (group_dates ?xs i))"
      and ei: "Min (group_dates ?xs i) = di \<or> Max (group_dates ?xs i) = di"
      unfolding pt_enrollment_span_iff select_endpoints_span_frame_iff by blast
    from m2 obtain j dj where j: "j < length df" and rj: "?xs ! j = (p, Some dj)"
      and s2: "s2 = Min (group_dates ?xs j)" and e2: "e2 = MonthEnd0 (Max (group_dates ?xs j))"
      and ej: "Min (group_dates ?xs j) = dj \<or> Max (group_dates ?xs j) = dj"
      unfolding pt_enrollment_span_iff select_endpoints_span_frame_iff by blast
    have ei': "di = Min (group_dates ?xs i) \<or> di = Max (group_dates ?xs i)" using ei by auto
    have ej': "dj = Min (group_dates ?xs j) \<or> dj = Max (group_dates ?xs j)" using ej by auto
    have "groups ?xs ! i \<noteq> groups ?xs ! j"
    proof
      assume "groups ?xs ! i = groups ?xs ! j"
      then have "group_dates ?xs i = group_dates ?xs j" by (simp add: group_dates_def)
      with s1 s2 e1 e2 ne show False by simp
    qed
    then consider "groups ?xs ! i < groups ?xs ! j" | "groups ?xs ! j < groups ?xs ! i"
      by linarith
    then show ?thesis
    proof cases
      case 1
      from later_group_starts_after[OF assms i j ri rj 1 ei' ej'] show ?thesis
        unfolding e1 s2 by simp
    next
      case 2
      from later_group_starts_after[OF assms j i rj ri 2 ej' ei'] show ?thesis
        unfolding e2 s1 by simp
    qed
  qed
  show ?thesis
    unfolding non_overlapping_def
  proof (intro ballI impI)
    fix a b assume a: "a \<in> set (pt_enrollment_span df)" and b: "b \<in> set (pt_enrollment_span df)"
      and ab: "a \<noteq> b \<and> fst a = fst b"
    obtain p s1 e1 where fa: "a = (p, s1, e1)" by (cases a) auto
    obtain p' s2 e2 where fb: "b = (p', s2, e2)" by (cases b) auto
    from ab have pp: "p' = p" and ne: "(s1, e1) \<noteq> (s2, e2)" unfolding fa fb by auto
    from key[OF a[unfolded fa] b[unfolded fb pp] ne]
    show "\<not> overlap a b" unfolding fa fb overlap_def by auto
  qed
qed

theorem spans_do_not_overlap_witness:
  "non_overlapping (pt_enrollment_span
      [(Some ''P'', Some (2023, 1, 1)), (Some ''P'', Some (2023, 2, 1)),
       (Some ''P'', Some (2023, 3, 1)), (Some ''P'', Some (2023, 5, 1))])
   \<and> pt_enrollment_span
      [(Some ''P'', Some (2023, 1, 1)), (Some ''P'', Some (2023, 2, 1)),
       (Some ''P'', Some (2023, 3, 1)), (Some ''P'', Some (2023, 5, 1))]
     = [(Some ''P'', (2023, 1, 1), (2023, 3, 31)), (Some ''P'', (2023, 5, 1), (2023, 5, 31))]"
proof -
  let ?df = "[(Some ''P'', Some (2023, 1, 1)), (Some ''P'', Some (2023, 2, 1)),
       (Some ''P'', Some (2023, 3, 1)), (Some ''P'', Some (2023, 5, 1))] :: enrollment list"
  have y: "single_year 2023 ?df" by (simp add: single_year_def year_def)
  have m: "one_row_per_month ?df" by (simp add: one_row_per_month_def month_def)
  have e: "pt_enrollment_span ?df
     = [(Some ''P'', (2023, 1, 1), (2023, 3, 31)), (Some ''P'', (2023, 5, 1), (2023, 5, 31))]"
    by code_simp
  from spans_do_not_overlap[OF y m] e show ?thesis by blast
qed


section \<open>The two counts of a span\<close>

text \<open>
  C3 does not hold as the specification states it: \<^verbatim>\<open>ct_outpatient_visits\<close> is to be the
  sum of \<^verbatim>\<open>outpatient_visit_count\<close> over the visit rows in the span, and
  \<^verbatim>\<open>ct_days_with_outpatient_visit\<close> the number of distinct dates. Below: (1) enrollment
  records of two years for which Step 1 writes the span row of patient B twice, so that
  the merge pairs B's one visit of count 3 with both rows and the total is 6; (2) two
  visits of count \<open>2 ^ 62\<close> on one day, whose \<^verbatim>\<open>Int64\<close> sum wraps around to \<open>- 2 ^ 63\<close>;
  (3) a visit row without a count followed by a row of the same day with count 3: the
  de-duplication keeps the first row of the day, \<^verbatim>\<open>transform('count')\<close> skips it, and the
  day is not counted.
\<close>

theorem visit_total_doubled_or_wrapped:
  "pt_enrollment_span [(Some ''A'', Some (2024, 5, 1)), (Some ''B'', Some (2023, 6, 1)),
                       (Some ''B'', Some (2024, 5, 2)), (Some ''C'', Some (2023, 6, 1))]
     = [(Some ''A'', (2023, 6, 1), (2024, 5, 31)), (Some ''B'', (2023, 6, 1), (2024, 5, 31)),
        (Some ''B'', (2023, 6, 1), (2024, 5, 31)), (Some ''C'', (2023, 6, 1), (2024, 5, 31))]
   \<and> result (pt_enrollment_span [(Some ''A'', Some (2024, 5, 1)), (Some ''B'', Some (2023, 6, 1)),
                                 (Some ''B'', Some (2024, 5, 2)), (Some ''C'', Some (2023, 6, 1))])
        [(Some ''B'', Some (2023, 7, 1), Some 3)]
     = [(Some ''B'', (2023, 6, 1), (2024, 5, 31), Some 6, Some 1)]
   \<and> result [(Some ''P'', (2023, 1, 1), (2023, 1, 31))]
        [(Some ''P'', Some (2023, 1, 5), Some 4611686018427387904),
         (Some ''P'', Some (2023, 1, 5), Some 4611686018427387904)]
     = [(Some ''P'', (2023, 1, 1), (2023, 1, 31), Some (- 9223372036854775808), Some 1)]
   \<and> result [(Some ''P'', (2023, 1, 1), (2023, 1, 31))]
        [(Some ''P'', Some (2023, 1, 5), None), (Some ''P'', Some (2023, 1, 5), Some 3)]
     = [(Some ''P'', (2023, 1, 1), (2023, 1, 31), Some 3, Some 0)]"
  by code_simp

text \<open>
  C3, amended: for every row of the final output with a \<^verbatim>\<open>patient_id\<close>, the span rows
  being distinct, as those of Step 1 are for single-year input:
  \<^verbatim>\<open>ct_outpatient_visits\<close> is the 64-bit value of the sum of \<^verbatim>\<open>outpatient_visit_count\<close>
  over all visit rows in the span, same-day rows included, hence the sum itself when the
  sum lies in the range of \<^verbatim>\<open>Int64\<close>; and \<^verbatim>\<open>ct_days_with_outpatient_visit\<close> counts no date
  twice: it is at most the number of distinct visit dates in the span, and equals it
  when every visit row in the span carries a count. Two rows of one patient on one date
  with counts 2 and 3 give 5 and 1.
\<close>

theorem counts_of_a_span:
  assumes "(Some pid, s, e, ct, days) \<in> set (result spans visits)"
    and "distinct spans
         \<or> (\<exists>y enrollments. single_year y enrollments \<and> spans = pt_enrollment_span enrollments)"
  shows "ct = Some (int64 (sum_list (map count_or_zero (visits_in_span (Some pid, s, e) visits))))
       \<and> (in_int64 (sum_list (map count_or_zero (visits_in_span (Some pid, s, e) visits)))
            \<longrightarrow> ct = Some (sum_list (map count_or_zero (visits_in_span (Some pid, s, e) visits))))
       \<and> (\<exists>n. days = Some n \<and> n \<le> card (days_with_visit (Some pid, s, e) visits))
       \<and> ((\<forall>v \<in> set visits. in_span (Some pid, s, e) v \<longrightarrow> snd (snd v) \<noteq> None)
            \<longrightarrow> days = Some (card (days_with_visit (Some pid, s, e) visits)))"
proof -
  from assms(2) have "distinct spans"
    using pt_enrollment_span_distinct by blast
  from result_counts_distinct[OF this assms(1)] show ?thesis
    using int64_id by auto
qed

theorem counts_of_a_span_witness:
  "result (pt_enrollment_span [(Some ''P'', Some (2023, 1, 1))])
      [(Some ''P'', Some (2023, 1, 5), Some 2), (Some ''P'', Some (2023, 1, 5), Some 3)]
     = [(Some ''P'', (2023, 1, 1), (2023, 1, 31), Some 5, Some 1)]
   \<and> sum_list (map count_or_zero (visits_in_span (Some ''P'', (2023, 1, 1), (2023, 1, 31))
        [(Some ''P'', Some (2023, 1, 5), Some 2), (Some ''P'', Some (2023, 1, 5), Some 3)])) = 5
   \<and> in_int64 5
   \<and> card (days_with_visit (Some ''P'', (2023, 1, 1), (2023, 1, 31))
        [(Some ''P'', Some (2023, 1, 5), Some 2), (Some ''P'', Some (2023, 1, 5), Some 3)]) = 1"
proof -
  let ?enr = "[(Some ''P'', Some (2023, 1, 1))] :: enrollment list"
  let ?visits = "[(Some ''P'', Some (2023, 1, 5), Some 2), (Some ''P'', Some (2023, 1, 5), Some 3)] :: visit list"
  have r: "result (pt_enrollment_span ?enr) ?visits = [(Some ''P'', (2023, 1, 1), (2023, 1, 31), Some 5, Some 1)]"
    by code_simp
  then have mem: "(Some ''P'', (2023, 1, 1), (2023, 1, 31), Some 5, Some 1)
      \<in> set (result (pt_enrollment_span ?enr) ?visits)"
    by simp
  have y: "single_year 2023 ?enr" by (simp add: single_year_def year_def)
  then have d: "distinct (pt_enrollment_span ?enr)
      \<or> (\<exists>y enrollments. single_year y enrollments \<and> pt_enrollment_span ?enr = pt_enrollment_span enrollments)"
    by blast
  have c: "\<forall>v \<in> set ?visits. in_span (Some ''P'', (2023, 1, 1), (2023, 1, 31)) v \<longrightarrow> snd (snd v) \<noteq> None"
    by simp
  have i: "in_int64 5" by (simp add: in_int64_def)
  have sm: "sum_list (map count_or_zero (visits_in_span (Some ''P'', (2023, 1, 1), (2023, 1, 31)) ?visits)) = 5"
    by code_simp
  from counts_of_a_span[OF mem d] c r i sm show ?thesis by simp
qed


section \<open>Start and end dates of a span\<close>





section \<open>Visits outside the spans\<close>




section \<open>Days with a visit against visits\<close>

text \<open>
  C6 does not hold as the specification states it: with every visit count at least 1,
  \<^verbatim>\<open>ct_days_with_outpatient_visit\<close> is to be at most \<^verbatim>\<open>ct_outpatient_visits\<close> in every
  output row. The sum is a sum of \<^verbatim>\<open>Int64\<close> values and wraps around: two visits of count
  \<open>2 ^ 62\<close> on two days of a span give \<open>- 2 ^ 63\<close> visits on 2 days.
\<close>

theorem visit_total_wraps_below_days:
  "result [(Some ''P'', (2023, 1, 1), (2023, 1, 31))]
     [(Some ''P'', Some (2023, 1, 5), Some 4611686018427387904),
      (Some ''P'', Some (2023, 1, 6), Some 4611686018427387904)]
     = [(Some ''P'', (2023, 1, 1), (2023, 1, 31), Some (- 9223372036854775808), Some 2)]
   \<and> counts_check [Some 4611686018427387904, Some 4611686018427387904]"
  by code_simp

text \<open>
  C6, amended: if every visit count is at least 1 and the counts of the visit rows in a
  span, added once for every occurrence of the span row among the spans, stay below
  \<open>2 ^ 63\<close> (the sum does not leave the range of \<^verbatim>\<open>Int64\<close>), then in the output row of
  that span \<^verbatim>\<open>ct_days_with_outpatient_visit\<close> is at most \<^verbatim>\<open>ct_outpatient_visits\<close>; a row
  without \<^verbatim>\<open>patient_id\<close> carries neither count (\<^verbatim>\<open>groupby\<close> drops the missing key).
\<close>

theorem days_le_visits:
  assumes "\<forall>(p, d, c) \<in> set visits. \<forall>n. c = Some n \<longrightarrow> 1 \<le> n"
    and "(p, s, e, ct, days) \<in> set (result spans visits)"
    and "int (count_list spans (p, s, e))
           * sum_list (map count_or_zero (visits_in_span (p, s, e) visits)) < 2 ^ 63"
  shows "(p = None \<and> ct = None \<and> days = None) \<or> (\<exists>a b. ct = Some a \<and> days = Some b \<and> int b \<le> a)"
proof -
  let ?kept = "combined_in_enrollment spans visits"
  let ?rows = "drop_duplicates_subset day_key ?kept"
  from assms(2) obtain r where r: "r \<in> set ?rows"
    and row: "(p, s, e, ct, days) = (case span_key r of (p, s, e) \<Rightarrow>
        (p, s, e, transform_sum ?kept r, transform_count ?rows r))"
    unfolding result_def set_aggregate by blast
  have pos: "\<forall>r \<in> set ?kept. \<forall>n. visit_count r = Some n \<longrightarrow> 1 \<le> n"
  proof (intro ballI allI impI)
    fix r' n assume r': "r' \<in> set ?kept" and n: "visit_count r' = Some n"
    obtain p' s' e' d' c' where f: "r' = (p', s', e', d', c')" by (cases r') auto
    from r' have "(p', d', c') \<in> set visits"
      unfolding f set_combined_in_enrollment_iff by simp
    with assms(1) n show "1 \<le> n" unfolding f visit_count_def by fastforce
  qed
  have p: "p = fst r" and ct: "ct = transform_sum ?kept r" and days: "days = transform_count ?rows r"
    and k: "span_key r = (p, s, e)"
    using row by (auto simp: span_key_def split: prod.splits)
  have nov: "sum_list (map (\<lambda>r'. case visit_count r' of None \<Rightarrow> 0 | Some n \<Rightarrow> n)
                (filter (\<lambda>r'. span_key r' = span_key r) ?kept)) < 2 ^ 63"
    unfolding k sum_group_combined by (rule assms(3))
  show ?thesis
  proof (cases "fst r")
    case None
    then show ?thesis using p ct days by (simp add: transform_sum_def transform_count_def)
  next
    case (Some pid)
    then obtain a b where a: "transform_sum ?kept r = Some a" and b: "transform_count ?rows r = Some b"
      by (simp add: transform_sum_def transform_count_def)
    from transform_count_le_sum[OF pos nov a b] show ?thesis using a b ct days by simp
  qed
qed

theorem days_le_visits_witness:
  "(Some ''P1'', (2023, 1, 1), (2023, 3, 31), Some 4, Some 2)
      \<in> set (result [(Some ''P1'', (2023, 1, 1), (2023, 3, 31))]
          [(Some ''P1'', Some (2023, 1, 5), Some 1), (Some ''P1'', Some (2023, 1, 5), Some 1),
           (Some ''P1'', Some (2023, 2, 10), Some 2)])
   \<and> int (count_list [(Some ''P1'', (2023, 1, 1), (2023, 3, 31))] (Some ''P1'', (2023, 1, 1), (2023, 3, 31)))
       * sum_list (map count_or_zero (visits_in_span (Some ''P1'', (2023, 1, 1), (2023, 3, 31))
          [(Some ''P1'', Some (2023, 1, 5), Some 1), (Some ''P1'', Some (2023, 1, 5), Some 1),
           (Some ''P1'', Some (2023, 2, 10), Some 2)])) = 4
   \<and> (\<exists>a b. (Some 4 :: int option) = Some a \<and> (Some 2 :: nat option) = Some b \<and> int b \<le> a)"
proof -
  let ?k = "(Some ''P1'', (2023, 1, 1), (2023, 3, 31)) :: span"
  let ?spans = "[?k]"
  let ?visits = "[(Some ''P1'', Some (2023, 1, 5), Some 1), (Some ''P1'', Some (2023, 1, 5), Some 1),
           (Some ''P1'', Some (2023, 2, 10), Some 2)] :: visit list"
  have r: "result ?spans ?visits = [(Some ''P1'', (2023, 1, 1), (2023, 3, 31), Some 4, Some 2)]"
    by code_simp
  then have mem: "(Some ''P1'', (2023, 1, 1), (2023, 3, 31), Some 4, Some 2) \<in> set (result ?spans ?visits)"
    by simp
  have pos: "\<forall>(p, d, c) \<in> set ?visits. \<forall>n. c = Some n \<longrightarrow> 1 \<le> n" by simp
  have tot: "int (count_list ?spans ?k) * sum_list (map count_or_zero (visits_in_span ?k ?visits)) = 4"
    by code_simp
  then have nov: "int (count_list ?spans ?k) * sum_list (map count_or_zero (visits_in_span ?k ?visits)) < 2 ^ 63"
    by simp
  from days_le_visits[OF pos mem nov] mem tot show ?thesis by simp
qed


section \<open>The printed year check\<close>

lemma year_check_sort_values: "year_check (sort_values df) = year_check df"
  by (simp add: year_check_def year_col_def sort_values_def list_all_iff)

lemma year_check_two_years:
  assumes "(p1, Some d1) \<in> set df" "(p2, Some d2) \<in> set df" "year d1 \<noteq> year d2"
  shows "\<not> year_check df"
proof
  assume "year_check df"
  then have "\<forall>r \<in> set df. map_option year (snd r) = Some 2023"
    by (auto simp: year_check_def year_col_def list_all_iff)
  with assms(1,2) have "year d1 = 2023" "year d2 = 2023" by force+
  with assms(3) show False by simp
qed

text \<open>
  C7. For every input whose enrollment records lie in more than one calendar year, the
  script reports the violated single-year assumption: Step 1 either ends with the
  exception of \<^verbatim>\<open>to_datetime\<close> or prints \<open>False\<close> for the check
  \<^verbatim>\<open>(year == 2023).all()\<close> as its first line, before the spans are written; so the
  first line printed by a run that gets past Step 1, whether or not Step 2 completes, is
  \<open>False\<close>.
\<close>

theorem year_check_reports_multi_year:
  assumes "(p1, Some (Parsed d1)) \<in> set raw" and "(p2, Some (Parsed d2)) \<in> set raw"
    and "year d1 \<noteq> year d2"
  shows "(step1 raw = Inl ValueError_to_datetime
          \<or> (\<exists>spans. step1 raw = Inr ([Check False, SpanRows (length spans)], spans)))
       \<and> (\<forall>out spans r. task_b raw vis = (out, Some spans, r) \<longrightarrow> out ! 0 = Check False)"
proof -
  let ?typed = "map typed_enrollment (dropna_enrollment raw)"
  have "(p1, Some d1) \<in> set ?typed"
    using assms(1) by (force simp: typed_enrollment_def dropna_enrollment_def typed_cell_def)
  moreover have "(p2, Some d2) \<in> set ?typed"
    using assms(2) by (force simp: typed_enrollment_def dropna_enrollment_def typed_cell_def)
  ultimately have "\<not> year_check ?typed"
    using assms(3) by (rule year_check_two_years)
  then have n: "year_check (sort_values ?typed) = False"
    by (simp add: year_check_sort_values)
  have 1: "step1 raw = Inl ValueError_to_datetime
          \<or> (\<exists>spans. step1 raw = Inr ([Check False, SpanRows (length spans)], spans))"
    unfolding step1_eq Let_def n by simp
  have 2: "out ! 0 = Check False" if "task_b raw vis = (out, Some spans, r)" for out spans r
    using that unfolding task_b_eq Let_def n by (auto split: if_splits)
  show ?thesis using 1 2 by blast
qed

theorem year_check_reports_multi_year_witness:
  "step1 [(Some ''P1'', Some (Parsed (2023, 12, 1))), (Some ''P1'', Some (Parsed (2024, 1, 1)))]
     = Inl ValueError_to_datetime
   \<or> (\<exists>spans. step1 [(Some ''P1'', Some (Parsed (2023, 12, 1))), (Some ''P1'', Some (Parsed (2024, 1, 1)))]
     = Inr ([Check False, SpanRows (length spans)], spans))"
  using year_check_reports_multi_year[of "Some ''P1''" "(2023, 12, 1)"
      "[(Some ''P1'', Some (Parsed (2023, 12, 1))), (Some ''P1'', Some (Parsed (2024, 1, 1)))]"
      "Some ''P1''" "(2024, 1, 1)" "[]"]
  by (simp add: year_def)


section \<open>Malformed and missing cells\<close>

text \<open>
  C8 does not hold as the specification states it: a row with an unparseable date or a
  non-numeric count is to be dropped, the run completing over the remaining rows. The
  script has no such handling: \<^verbatim>\<open>to_datetime\<close> and \<^verbatim>\<open>read_csv\<close> raise, and the run ends with the
  exception. Below, an enrollment file with one good row and one row whose date does not
  parse: the run raises before anything is printed or written, while the run over the
  good row alone completes.
\<close>

theorem task_b_unparseable_date_aborts:
  "task_b [(Some ''P1'', Some (Parsed (2023, 1, 1))), (Some ''P2'', Some Unparseable)] []
     = ([], None, Inl ValueError_to_datetime)
   \<and> task_b [(Some ''P1'', Some (Parsed (2023, 1, 1)))] []
     = ([Check True, SpanRows 1, Check True, Check True, DistinctDayCounts 0],
        Some [(Some ''P1'', (2023, 1, 1), (2023, 1, 31))], Inr [])"
  by code_simp

text \<open>
  C8, amended: a run whose input has a cell that does not convert ends with the
  exception of the conversion, no row being dropped for it, and keeps what it has
  printed and written before. A date of the enrollment file that does not parse ends
  the run before anything is printed or written. Otherwise Step 1 completes, and a count
  of the visit file that \<^verbatim>\<open>read_csv\<close> cannot read ends the run after Step 1's two printed
  lines and \<^verbatim>\<open>patient_enrollment_span.csv\<close>; otherwise a date of the visit file that does
  not parse ends the run after these and the printed check of the counts. In none of
  these runs is \<^verbatim>\<open>result.csv\<close> written. A run whose cells all convert completes, and rows
  in which every cell is missing are dropped: the run equals the run over the remaining
  rows.
\<close>

theorem task_b_malformed_rows:
  "((\<exists>p. (p, Some Unparseable) \<in> set enr)
        \<longrightarrow> task_b enr vis = ([], None, Inl ValueError_to_datetime))
   \<and> ((\<forall>p. (p, Some Unparseable) \<notin> set enr) \<and> (\<exists>p d c. (p, d, c) \<in> set vis \<and> unreadable_count c)
        \<longrightarrow> (\<exists>out spans. step1 enr = Inr (out, spans)
              \<and> task_b enr vis = (out, Some spans, Inl Error_read_csv)))
   \<and> ((\<forall>p. (p, Some Unparseable) \<notin> set enr) \<and> (\<forall>p d c. (p, d, c) \<in> set vis \<longrightarrow> \<not> unreadable_count c)
        \<and> (\<exists>p c. (p, Some Unparseable, c) \<in> set vis)
        \<longrightarrow> (\<exists>out spans. step1 enr = Inr (out, spans)
              \<and> task_b enr vis
                  = (out @ [Check (counts_check (map (\<lambda>(p, d, n). n)
                       (map typed_visit (filter (\<lambda>r. \<not> all_missing_visit r) vis))))],
                     Some spans, Inl ValueError_to_datetime)))
   \<and> ((\<forall>p. (p, Some Unparseable) \<notin> set enr) \<and> (\<forall>p d c. (p, d, c) \<in> set vis \<longrightarrow> \<not> unreadable_count c)
        \<and> (\<forall>p c. (p, Some Unparseable, c) \<notin> set vis)
        \<longrightarrow> (\<exists>out spans res. task_b enr vis = (out, Some spans, Inr res)))
   \<and> task_b enr vis
        = task_b (filter (\<lambda>(p, my). \<not> (p = None \<and> my = None)) enr)
                 (filter (\<lambda>(p, d, c). \<not> (p = None \<and> d = None \<and> c = None)) vis)"
proof -
  have e: "Some Unparseable \<in> snd ` set enr \<longleftrightarrow> (\<exists>p. (p, Some Unparseable) \<in> set enr)"
    by force
  have c: "(\<exists>r \<in> set vis. unreadable_count (snd (snd r))) \<longleftrightarrow> (\<exists>p d c. (p, d, c) \<in> set vis \<and> unreadable_count c)"
    by force
  have d: "Some Unparseable \<in> (\<lambda>(p, d, c). d) ` set vis \<longleftrightarrow> (\<exists>p c. (p, Some Unparseable, c) \<in> set vis)"
    by force
  let ?enr' = "filter (\<lambda>(p, my). \<not> (p = None \<and> my = None)) enr"
  let ?vis' = "filter (\<lambda>(p, d, c). \<not> (p = None \<and> d = None \<and> c = None)) vis"
  have e': "Some Unparseable \<in> snd ` set ?enr' \<longleftrightarrow> Some Unparseable \<in> snd ` set enr"
    by force
  have c': "(\<exists>r \<in> set ?vis'. unreadable_count (snd (snd r))) \<longleftrightarrow> (\<exists>r \<in> set vis. unreadable_count (snd (snd r)))"
    by (force simp: unreadable_count_def)
  have d': "Some Unparseable \<in> (\<lambda>(p, d, c). d) ` set ?vis' \<longleftrightarrow> Some Unparseable \<in> (\<lambda>(p, d, c). d) ` set vis"
    by force
  have f1: "dropna_enrollment ?enr' = dropna_enrollment enr"
    by (simp add: dropna_enrollment_def)
  have f2: "filter (\<lambda>r. \<not> all_missing_visit r) ?vis' = filter (\<lambda>r. \<not> all_missing_visit r) vis"
    by (auto simp: all_missing_visit_def case_prod_unfold intro!: filter_cong)
  have last: "task_b enr vis = task_b ?enr' ?vis'"
    unfolding task_b_eq[of enr vis] task_b_eq[of ?enr' ?vis'] e' c' d' f1 f2 ..
  have 1: "task_b enr vis = ([], None, Inl ValueError_to_datetime)"
    if "\<exists>p. (p, Some Unparseable) \<in> set enr"
    using that unfolding task_b_eq e by simp
  have 2: "\<exists>out spans. step1 enr = Inr (out, spans)
              \<and> task_b enr vis = (out, Some spans, Inl Error_read_csv)"
    if "\<forall>p. (p, Some Unparseable) \<notin> set enr" "\<exists>p d c. (p, d, c) \<in> set vis \<and> unreadable_count c"
    using that unfolding task_b_eq step1_eq e c by (simp add: Let_def)
  have 3: "\<exists>out spans. step1 enr = Inr (out, spans)
              \<and> task_b enr vis
                  = (out @ [Check (counts_check (map (\<lambda>(p, d, n). n)
                       (map typed_visit (filter (\<lambda>r. \<not> all_missing_visit r) vis))))],
                     Some spans, Inl ValueError_to_datetime)"
    if "\<forall>p. (p, Some Unparseable) \<notin> set enr" "\<forall>p d c. (p, d, c) \<in> set vis \<longrightarrow> \<not> unreadable_count c"
      "\<exists>p c. (p, Some Unparseable, c) \<in> set vis"
  proof -
    have "\<not> (\<exists>p d c. (p, d, c) \<in> set vis \<and> unreadable_count c)" using that(2) by blast
    then show ?thesis
      using that(1,3) unfolding task_b_eq step1_eq e c d by (simp add: Let_def)
  qed
  have 4: "\<exists>out spans res. task_b enr vis = (out, Some spans, Inr res)"
    if "\<forall>p. (p, Some Unparseable) \<notin> set enr" "\<forall>p d c. (p, d, c) \<in> set vis \<longrightarrow> \<not> unreadable_count c"
      "\<forall>p c. (p, Some Unparseable, c) \<notin> set vis"
  proof -
    have "\<not> (\<exists>p d c. (p, d, c) \<in> set vis \<and> unreadable_count c)" using that(2) by blast
    then show ?thesis
      using that(1,3) unfolding task_b_eq e c d by (simp add: Let_def)
  qed
  show ?thesis
    using 1 2 3 4 last by blast
qed

theorem task_b_malformed_rows_witness:
  "task_b [(Some ''P1'', Some (Parsed (2023, 1, 1))), (None, None), (Some ''P2'', Some Unparseable)] []
     = ([], None, Inl ValueError_to_datetime)
   \<and> task_b [(Some ''P1'', Some (Parsed (2023, 1, 1)))]
        [(Some ''P1'', Some (Parsed (2023, 1, 5)), Some Unparseable)]
     = ([Check True, SpanRows 1], Some [(Some ''P1'', (2023, 1, 1), (2023, 1, 31))],
        Inl Error_read_csv)
   \<and> task_b [(Some ''P1'', Some (Parsed (2023, 1, 1)))]
        [(Some ''P1'', Some (Parsed (2023, 1, 5)), Some (Parsed 9223372036854775808))]
     = ([Check True, SpanRows 1], Some [(Some ''P1'', (2023, 1, 1), (2023, 1, 31))],
        Inl Error_read_csv)
   \<and> task_b [(Some ''P1'', Some (Parsed (2023, 1, 1)))]
        [(Some ''P1'', Some Unparseable, Some (Parsed 1))]
     = ([Check True, SpanRows 1, Check True], Some [(Some ''P1'', (2023, 1, 1), (2023, 1, 31))],
        Inl ValueError_to_datetime)
   \<and> (\<exists>out spans res. task_b [(Some ''P1'', Some (Parsed (2023, 1, 1))), (None, None)]
        [(None, None, None), (Some ''P1'', Some (Parsed (2023, 1, 5)), Some (Parsed 1))]
       = (out, Some spans, Inr res))
   \<and> task_b [(Some ''P1'', Some (Parsed (2023, 1, 1))), (None, None)]
        [(None, None, None), (Some ''P1'', Some (Parsed (2023, 1, 5)), Some (Parsed 1))]
       = task_b [(Some ''P1'', Some (Parsed (2023, 1, 1)))]
        [(Some ''P1'', Some (Parsed (2023, 1, 5)), Some (Parsed 1))]"
proof -
  let ?enr = "[(Some ''P1'', Some (Parsed (2023, 1, 1)))] :: raw_enrollment list"
  have s1: "step1 ?enr = Inr ([Check True, SpanRows 1], [(Some ''P1'', (2023, 1, 1), (2023, 1, 31))])"
    by code_simp
  have 1: "task_b [(Some ''P1'', Some (Parsed (2023, 1, 1))), (None, None), (Some ''P2'', Some Unparseable)] []
     = ([], None, Inl ValueError_to_datetime)"
    using task_b_malformed_rows[of "[(Some ''P1'', Some (Parsed (2023, 1, 1))), (None, None), (Some ''P2'', Some Unparseable)]" "[]"]
    by simp
  have 2: "task_b ?enr [(Some ''P1'', Some (Parsed (2023, 1, 5)), Some Unparseable)]
     = ([Check True, SpanRows 1], Some [(Some ''P1'', (2023, 1, 1), (2023, 1, 31))],
        Inl Error_read_csv)"
    using task_b_malformed_rows[of ?enr "[(Some ''P1'', Some (Parsed (2023, 1, 5)), Some Unparseable)]"]
    by (simp add: s1 unreadable_count_def)
  have 3: "task_b ?enr [(Some ''P1'', Some (Parsed (2023, 1, 5)), Some (Parsed 9223372036854775808))]
     = ([Check True, SpanRows 1], Some [(Some ''P1'', (2023, 1, 1), (2023, 1, 31))],
        Inl Error_read_csv)"
    using task_b_malformed_rows[of ?enr "[(Some ''P1'', Some (Parsed (2023, 1, 5)), Some (Parsed 9223372036854775808))]"]
    by (simp add: s1 unreadable_count_def in_int64_def)
  have cc: "counts_check (map (\<lambda>(p, d, n). n) (map typed_visit (filter (\<lambda>r. \<not> all_missing_visit r)
        [(Some ''P1'', Some Unparseable, Some (Parsed 1))])))"
    by code_simp
  have 4: "task_b ?enr [(Some ''P1'', Some Unparseable, Some (Parsed 1))]
     = ([Check True, SpanRows 1, Check True], Some [(Some ''P1'', (2023, 1, 1), (2023, 1, 31))],
        Inl ValueError_to_datetime)"
    using task_b_malformed_rows[of ?enr "[(Some ''P1'', Some Unparseable, Some (Parsed 1))]"] cc
    by (simp add: s1 unreadable_count_def in_int64_def)
  note t = task_b_malformed_rows[of "[(Some ''P1'', Some (Parsed (2023, 1, 1))), (None, None)]"
      "[(None, None, None), (Some ''P1'', Some (Parsed (2023, 1, 5)), Some (Parsed 1))]"]
  have 5: "\<exists>out spans res. task_b [(Some ''P1'', Some (Parsed (2023, 1, 1))), (None, None)]
        [(None, None, None), (Some ''P1'', Some (Parsed (2023, 1, 5)), Some (Parsed 1))]
       = (out, Some spans, Inr res)"
    using t by (elim conjE) (simp add: unreadable_count_def in_int64_def)
  have 6: "task_b [(Some ''P1'', Some (Parsed (2023, 1, 1))), (None, None)]
        [(None, None, None), (Some ''P1'', Some (Parsed (2023, 1, 5)), Some (Parsed 1))]
       = task_b ?enr [(Some ''P1'', Some (Parsed (2023, 1, 5)), Some (Parsed 1))]"
    using t by (elim conjE) simp
  show ?thesis using 1 2 3 4 5 6 by blast
qed


section \<open>Contiguity looks at the month number only\<close>




section \<open>Independence of the input row order\<close>

text \<open>
  C10 does not hold as stated: for any two orders of the same enrollment rows and of the
  same visit rows, the spans and the set of output rows are to be the same. The spans
  are; the output is not when a count is missing: \<^verbatim>\<open>drop_duplicates\<close> keeps the first row of a
  day and \<^verbatim>\<open>transform('count')\<close> skips a missing count, so with one row without a count
  and one with count 3 on the same day, the day is counted only when the row with the
  count comes first.
\<close>

theorem missing_count_makes_days_order_dependent:
  "result (pt_enrollment_span [(Some ''P1'', Some (2023, 1, 1))])
      [(Some ''P1'', Some (2023, 1, 5), None), (Some ''P1'', Some (2023, 1, 5), Some 3)]
     = [(Some ''P1'', (2023, 1, 1), (2023, 1, 31), Some 3, Some 0)]
   \<and> result (pt_enrollment_span [(Some ''P1'', Some (2023, 1, 1))])
      [(Some ''P1'', Some (2023, 1, 5), Some 3), (Some ''P1'', Some (2023, 1, 5), None)]
     = [(Some ''P1'', (2023, 1, 1), (2023, 1, 31), Some 3, Some 1)]"
  by code_simp

text \<open>
  C10, amended: for any two orders of the same enrollment rows and of the same visit
  rows, every visit row carrying a count, Step 1 produces the same span rows and the
  final output has the same set of rows.
\<close>

theorem output_independent_of_row_order:
  assumes "mset enrollments = mset enrollments'" and "mset visits = mset visits'"
    and "\<forall>(p, d, c) \<in> set visits. c \<noteq> None"
  shows "pt_enrollment_span enrollments = pt_enrollment_span enrollments'
       \<and> set (result (pt_enrollment_span enrollments) visits)
           = set (result (pt_enrollment_span enrollments') visits')"
proof -
  have 1: "pt_enrollment_span enrollments = pt_enrollment_span enrollments'"
    using assms(1) by (rule pt_enrollment_span_mset)
  have c: "\<forall>v \<in> set visits. snd (snd v) \<noteq> None"
    using assms(3) by (auto simp: case_prod_unfold)
  show ?thesis
    unfolding 1 using result_permuted_visits[OF assms(2) c] by simp
qed

theorem output_independent_of_row_order_witness:
  "pt_enrollment_span [(Some ''P1'', Some (2023, 2, 1)), (Some ''P1'', Some (2023, 1, 1))]
     = pt_enrollment_span [(Some ''P1'', Some (2023, 1, 1)), (Some ''P1'', Some (2023, 2, 1))]
   \<and> set (result (pt_enrollment_span [(Some ''P1'', Some (2023, 2, 1)), (Some ''P1'', Some (2023, 1, 1))])
        [(Some ''P1'', Some (2023, 1, 5), Some 1), (Some ''P1'', Some (2023, 2, 10), Some 2)])
     = set (result (pt_enrollment_span [(Some ''P1'', Some (2023, 1, 1)), (Some ''P1'', Some (2023, 2, 1))])
        [(Some ''P1'', Some (2023, 2, 10), Some 2), (Some ''P1'', Some (2023, 1, 5), Some 1)])"
proof -
  have e: "mset [(Some ''P1'', Some (2023, 2, 1)), (Some ''P1'', Some (2023, 1, 1))]
      = mset [(Some ''P1'', Some ((2023, 1, 1) :: date)), (Some ''P1'', Some (2023, 2, 1))]"
    by simp
  have v: "mset [(Some ''P1'', Some (2023, 1, 5), Some 1), (Some ''P1'', Some (2023, 2, 10), Some 2)]
      = mset [(Some ''P1'', Some ((2023, 2, 10) :: date), Some (2 :: int)), (Some ''P1'', Some (2023, 1, 5), Some 1)]"
    by simp
  have c: "\<forall>(p, d, c) \<in> set [(Some ''P1'', Some ((2023, 1, 5) :: date), Some (1 :: int)),
      (Some ''P1'', Some (2023, 2, 10), Some 2)]. c \<noteq> None"
    by simp
  show ?thesis by (rule output_independent_of_row_order[OF e v c])
qed

end
